theory Spec2Isabelle
  imports Complex_Main "HOL-Library.Multiset"
begin

section \<open>Common conventions\<close>

text \<open>
  Node identifiers, labels and container sizes are \<open>size_t\<close> in the source; they are
  modelled as \<open>nat\<close>, and the one place where the unsigned wrap-around is visible
  (\<open>size() - 1\<close> on an empty container) is written out modulo \<open>2 ^ 64\<close>.
  A \<open>double\<close> is idealised as a \<open>real\<close>.  A \<open>std::set<size_t>\<close> is the list of its
  elements in iteration (ascending) order, a \<open>std::vector\<close> is a list.

  Everything that ends a call abnormally is a value of \<open>error\<close>: the two exception classes
  thrown by the sources, the \<open>assert\<close> of the Flockwork drivers, and reads or writes outside
  a container and conversions of a \<open>double\<close> that is no \<open>size_t\<close>, which throw nothing in
  C++ (their behaviour is undefined).
\<close>

datatype error =
  Length_error | Domain_error | Assertion_failed | Out_of_bounds | Undefined_conversion

fun thrown :: "error \<Rightarrow> bool" where
  "thrown Length_error = True"
| "thrown Domain_error = True"
| "thrown Assertion_failed = False"
| "thrown Out_of_bounds = False"
| "thrown Undefined_conversion = False"

type_synonym edge = "nat \<times> nat"
type_synonym graph = "nat list list"

section \<open>The SIRS process (SIRS.cpp)\<close>

datatype EPI = EPI_S | EPI_I | EPI_R

text \<open>
  The members of class \<open>SIRS\<close>.  The members \<open>N\<close>, \<open>G\<close> and the observable vectors
  \<open>R0\<close>, \<open>SI\<close>, \<open>I\<close>, \<open>R\<close>, \<open>time\<close> carry the prefix \<open>sirs_\<close>.  \<open>sirs_G\<close> is the
  network the pointer \<open>G\<close> refers to.
\<close>

record SIRS =
  sirs_N :: nat
  sirs_G :: graph
  node_status :: "EPI list"
  infected :: "nat list"
  recovered :: "nat list"
  SI_edges :: "edge list"
  infection_rate :: real
  recovery_rate :: real
  becoming_susceptible_rate :: real
  mean_degree :: real
  sirs_R0 :: "real list"
  sirs_SI :: "nat list"
  sirs_I :: "nat list"
  sirs_R :: "nat list"
  sirs_time :: "real list"

definition update_observables :: "real \<Rightarrow> SIRS \<Rightarrow> SIRS" where
  "update_observables t st =
     st\<lparr> sirs_R0 := sirs_R0 st @ [infection_rate st * mean_degree st / recovery_rate st],
         sirs_SI := sirs_SI st @ [length (SI_edges st)],
         sirs_I := sirs_I st @ [length (infected st)],
         sirs_R := sirs_R st @ [length (recovered st)],
         sirs_time := sirs_time st @ [t] \<rparr>"

definition compute_mean_degree :: "graph \<Rightarrow> nat \<Rightarrow> real" where
  "compute_mean_degree g n = real (sum_list (map length g)) / real n"

text \<open>The scan of the first overload of \<open>update_network\<close>: every infected node, each
  of its neighbours in turn, kept when the neighbour is susceptible.\<close>

definition scan_SI :: "graph \<Rightarrow> EPI list \<Rightarrow> nat list \<Rightarrow> edge list" where
  "scan_SI g status infs =
     concat (map (\<lambda>inf. map (\<lambda>nb. (inf, nb)) (filter (\<lambda>nb. status ! nb = EPI_S) (g ! inf))) infs)"

definition scan_in_range :: "graph \<Rightarrow> EPI list \<Rightarrow> nat list \<Rightarrow> bool" where
  "scan_in_range g status infs \<longleftrightarrow>
     (\<forall>inf \<in> set infs. inf < length g \<and> (\<forall>nb \<in> set (g ! inf). nb < length status))"

definition update_network_full :: "graph \<Rightarrow> real \<Rightarrow> SIRS \<Rightarrow> error + SIRS" where
  "update_network_full g t st =
     (if scan_in_range g (node_status st) (infected st)
      then Inr (update_observables t
             (st\<lparr> sirs_G := g,
                  mean_degree := compute_mean_degree g (sirs_N st),
                  SI_edges := scan_SI g (node_status st) (infected st) \<rparr>))
      else Inl Out_of_bounds)"

text \<open>The predicate of the \<open>remove_if\<close> in the second overload: the entry, with the
  smaller node first, is looked up in the set built from \<open>edges_out\<close>.\<close>

definition leaving :: "edge list \<Rightarrow> edge \<Rightarrow> bool" where
  "leaving edges_out e =
     (let u = fst e; v = snd e
      in (if v < u then (v, u) else (u, v)) \<in> set edges_out)"

definition push_edge_in :: "EPI list \<Rightarrow> edge \<Rightarrow> edge list \<Rightarrow> edge list" where
  "push_edge_in status e si =
     (let u = fst e; v = snd e
      in if status ! u = EPI_S \<and> status ! v = EPI_I then si @ [(v, u)]
         else if status ! v = EPI_S \<and> status ! u = EPI_I then si @ [(u, v)]
         else si)"

definition edges_in_range :: "nat \<Rightarrow> edge list \<Rightarrow> bool" where
  "edges_in_range n es \<longleftrightarrow> (\<forall>e \<in> set es. fst e < n \<and> snd e < n)"

definition update_network :: "graph \<Rightarrow> edge list \<Rightarrow> edge list \<Rightarrow> real \<Rightarrow> SIRS \<Rightarrow> error + SIRS" where
  "update_network g edges_in edges_out t st =
     (if edges_in_range (length (node_status st)) edges_in
      then Inr (update_observables t
             (st\<lparr> sirs_G := g,
                  mean_degree := compute_mean_degree g (sirs_N st),
                  SI_edges := fold (push_edge_in (node_status st)) edges_in
                                (filter (\<lambda>e. \<not> leaving edges_out e) (SI_edges st)) \<rparr>))
      else Inl Out_of_bounds)"

text \<open>
  \<open>uniform_int_distribution<size_t>(0, size - 1)\<close>: the upper bound is computed in
  \<open>size_t\<close>, so it is \<open>2^64 - 1\<close> for an empty container.  A handler receives the index
  \<open>r\<close> the distribution returned, \<open>r \<le> draw_upper size\<close>.
\<close>

definition draw_upper :: "nat \<Rightarrow> nat" where
  "draw_upper n = (n + 2 ^ 64 - 1) mod 2 ^ 64"

definition neighbours_in_range :: "SIRS \<Rightarrow> nat \<Rightarrow> bool" where
  "neighbours_in_range st x \<longleftrightarrow>
     x < length (node_status st) \<and> x < length (sirs_G st) \<and>
     (\<forall>nb \<in> set (sirs_G st ! x). nb < length (node_status st))"

definition infection_event :: "nat \<Rightarrow> SIRS \<Rightarrow> error + SIRS" where
  "infection_event r st =
     (if r < length (SI_edges st) then
        (let this_susceptible = snd (SI_edges st ! r) in
         if neighbours_in_range st this_susceptible then
           (let status = (node_status st)[this_susceptible := EPI_I];
                kept = filter (\<lambda>e. snd e \<noteq> this_susceptible) (SI_edges st);
                this_infected = this_susceptible
            in Inr (st\<lparr> infected := infected st @ [this_susceptible],
                        node_status := status,
                        SI_edges := kept @ map (\<lambda>nb. (this_infected, nb))
                                      (filter (\<lambda>nb. status ! nb = EPI_S) (sirs_G st ! this_infected)) \<rparr>))
         else Inl Out_of_bounds)
      else Inl Out_of_bounds)"

definition recovery_event :: "nat \<Rightarrow> SIRS \<Rightarrow> error + SIRS" where
  "recovery_event r st =
     (if r < length (infected st) then
        (let this_infected = infected st ! r in
         if this_infected < length (node_status st) then
           Inr (st\<lparr> infected := take r (infected st) @ drop (Suc r) (infected st),
                    recovered := recovered st @ [this_infected],
                    node_status := (node_status st)[this_infected := EPI_R],
                    SI_edges := filter (\<lambda>e. fst e \<noteq> this_infected) (SI_edges st) \<rparr>)
         else Inl Out_of_bounds)
      else Inl Out_of_bounds)"

definition susceptible_event :: "nat \<Rightarrow> SIRS \<Rightarrow> error + SIRS" where
  "susceptible_event r st =
     (if r < length (recovered st) then
        (let this_recovered = recovered st ! r in
         if neighbours_in_range st this_recovered then
           (let status = (node_status st)[this_recovered := EPI_S];
                this_susceptible = this_recovered
            in Inr (st\<lparr> recovered := take r (recovered st) @ drop (Suc r) (recovered st),
                        node_status := status,
                        SI_edges := SI_edges st @ map (\<lambda>nb. (nb, this_susceptible))
                                      (filter (\<lambda>nb. status ! nb = EPI_I) (sirs_G st ! this_susceptible)) \<rparr>))
         else Inl Out_of_bounds)
      else Inl Out_of_bounds)"

definition make_event :: "nat \<Rightarrow> real \<Rightarrow> nat \<Rightarrow> SIRS \<Rightarrow> error + SIRS" where
  "make_event event t r st =
     (case (if event = 0 then infection_event r st
            else if event = 1 then recovery_event r st
            else if event = 2 then susceptible_event r st
            else Inl Length_error) of
        Inl e \<Rightarrow> Inl e
      | Inr st' \<Rightarrow> Inr (update_observables t st'))"

subsection \<open>The cache and what it caches\<close>

definition graph_ok :: "graph \<Rightarrow> nat \<Rightarrow> bool" where
  "graph_ok g n \<longleftrightarrow>
     length g = n \<and> (\<forall>i \<in> set [0..<n]. \<forall>j \<in> set (g ! i). j < n \<and> i \<in> set (g ! j))"

definition nodes_with :: "EPI list \<Rightarrow> EPI \<Rightarrow> nat list" where
  "nodes_with status x = filter (\<lambda>i. status ! i = x) [0..<length status]"

definition sirs_wf :: "SIRS \<Rightarrow> bool" where
  "sirs_wf st \<longleftrightarrow>
     graph_ok (sirs_G st) (length (node_status st)) \<and>
     distinct (infected st) \<and>
     set (infected st) = set (nodes_with (node_status st) EPI_I) \<and>
     distinct (recovered st) \<and>
     set (recovered st) = set (nodes_with (node_status st) EPI_R)"

text \<open>The ordered pairs \<open>(i, s)\<close> with \<open>i\<close> infected, \<open>s\<close> susceptible and \<open>s\<close> a
  neighbour of \<open>i\<close>.\<close>

definition SI_pairs :: "graph \<Rightarrow> EPI list \<Rightarrow> edge set" where
  "SI_pairs g status =
     set (filter (\<lambda>e. status ! fst e = EPI_I \<and> status ! snd e = EPI_S \<and> snd e \<in> set (g ! fst e))
            (List.product [0..<length status] [0..<length status]))"

definition SI_consistent :: "SIRS \<Rightarrow> bool" where
  "SI_consistent st \<longleftrightarrow> set (SI_edges st) = SI_pairs (sirs_G st) (node_status st)"

text \<open>The network \<open>g'\<close> handed to the second overload of \<open>update_network\<close> is the
  network \<open>g\<close> with the edges of \<open>edges_out\<close> removed and those of \<open>edges_in\<close> added.\<close>

definition network_changed_by :: "graph \<Rightarrow> graph \<Rightarrow> edge list \<Rightarrow> edge list \<Rightarrow> bool" where
  "network_changed_by g g' edges_in edges_out \<longleftrightarrow>
     (\<forall>i \<in> set [0..<length g]. \<forall>j \<in> set [0..<length g].
        j \<in> set (g' ! i) \<longleftrightarrow>
          (j \<in> set (g ! i) \<and> (i, j) \<notin> set edges_out \<and> (j, i) \<notin> set edges_out)
          \<or> (i, j) \<in> set edges_in \<or> (j, i) \<in> set edges_in)"

definition ascending :: "edge list \<Rightarrow> bool" where
  "ascending es \<longleftrightarrow> (\<forall>e \<in> set es. fst e < snd e)"

subsection \<open>Two concrete epidemic states\<close>

text \<open>A path \<open>0 - 1 - 2 - 3\<close> with node 0 infected, nodes 1 and 2 susceptible and node 3
  recovered; and a single edge \<open>0 - 1\<close> with node 0 infected and node 1 susceptible.\<close>

definition path_state :: SIRS where
  "path_state =
     \<lparr> sirs_N = 4, sirs_G = [[1], [0, 2], [1, 3], [2]],
       node_status = [EPI_I, EPI_S, EPI_S, EPI_R],
       infected = [0], recovered = [3], SI_edges = [(0, 1)],
       infection_rate = 1, recovery_rate = 1, becoming_susceptible_rate = 1,
       mean_degree = 3 / 2,
       sirs_R0 = [], sirs_SI = [], sirs_I = [], sirs_R = [], sirs_time = [] \<rparr>"

definition pair_state :: SIRS where
  "pair_state =
     \<lparr> sirs_N = 2, sirs_G = [[1], [0]],
       node_status = [EPI_I, EPI_S],
       infected = [0], recovered = [], SI_edges = [(0, 1)],
       infection_rate = 1, recovery_rate = 1, becoming_susceptible_rate = 1,
       mean_degree = 1,
       sirs_R0 = [], sirs_SI = [], sirs_I = [], sirs_R = [], sirs_time = [] \<rparr>"

definition cache_correct :: "SIRS \<Rightarrow> bool" where
  "cache_correct st \<longleftrightarrow>
     sirs_wf st \<and> SI_consistent st \<and>
     set (SI_edges st) = set (scan_SI (sirs_G st) (node_status st) (infected st))"

text \<open>An adjacency set holds each neighbour once.\<close>

definition adjacency_distinct :: "graph \<Rightarrow> bool" where
  "adjacency_distinct g \<longleftrightarrow> (\<forall>i \<in> set [0..<length g]. distinct (g ! i))"

text \<open>The cache is exact when, beyond holding the right pairs, it holds each of them once:
  it has the entries of the scan over all infected nodes' neighbours with their
  multiplicities, so that its size, which the infection rate is computed from, is the
  number of infected-susceptible pairs.\<close>

definition cache_exact :: "SIRS \<Rightarrow> bool" where
  "cache_exact st \<longleftrightarrow>
     cache_correct st \<and> adjacency_distinct (sirs_G st) \<and> distinct (SI_edges st) \<and>
     mset (SI_edges st) = mset (scan_SI (sirs_G st) (node_status st) (infected st)) \<and>
     length (SI_edges st) = length (scan_SI (sirs_G st) (node_status st) (infected st))"

text \<open>The edges of \<open>edges_in\<close> are new: each is listed once, in one direction only, and
  none is an edge of the network \<open>g\<close> they are added to.\<close>

definition new_edges :: "graph \<Rightarrow> edge list \<Rightarrow> bool" where
  "new_edges g es \<longleftrightarrow>
     distinct (map (\<lambda>e. (min (fst e) (snd e), max (fst e) (snd e))) es) \<and>
     (\<forall>e \<in> set es. snd e \<notin> set (g ! fst e))"

section \<open>Networks as adjacency sets\<close>

text \<open>\<open>std::set::insert\<close> and \<open>std::set::erase\<close> on the ascending list of the elements.\<close>

definition set_insert :: "nat \<Rightarrow> nat list \<Rightarrow> nat list" where
  "set_insert x xs = (if x \<in> set xs then xs else insort x xs)"

definition set_erase :: "nat \<Rightarrow> nat list \<Rightarrow> nat list" where
  "set_erase x xs = removeAll x xs"

text \<open>\<open>G[i].insert(j); G[j].insert(i)\<close> and \<open>G[i].erase(j); G[j].erase(i)\<close>, the second
  statement acting on the result of the first.\<close>

definition insert_edge :: "edge \<Rightarrow> graph \<Rightarrow> graph" where
  "insert_edge e g =
     (let i = fst e; j = snd e;
          g1 = g[i := set_insert j (g ! i)]
      in g1[j := set_insert i (g1 ! j)])"

definition erase_edge :: "edge \<Rightarrow> graph \<Rightarrow> graph" where
  "erase_edge e g =
     (let i = fst e; j = snd e;
          g1 = g[i := set_erase j (g ! i)]
      in g1[j := set_erase i (g1 ! j)])"

text \<open>
  Modelled from the spec: \<open>graph_from_edgelist\<close> (Utilities.h) is not among the sources.
  The Graph of the data model is a mapping from each node to the set of its neighbours,
  symmetric, built from a list of undirected edges: every adjacency set is emptied and
  each edge is inserted in both directions.  An edge naming a node outside \<open>0..N-1\<close>
  indexes the vector out of range.
\<close>

definition graph_from_edgelist :: "graph \<Rightarrow> edge list \<Rightarrow> error + graph" where
  "graph_from_edgelist g es =
     (if edges_in_range (length g) es
      then Inr (fold insert_edge es (replicate (length g) []))
      else Inl Out_of_bounds)"

section \<open>The Flockwork-P drivers (FW\_P\_varying\_alpha\_beta.cpp)\<close>

text \<open>The result class \<open>edge_changes\<close>; its members carry the prefix \<open>ec_\<close>.\<close>

record edge_changes =
  ec_t :: "real list"
  ec_tmax :: real
  ec_t0 :: real
  ec_edges_initial :: "edge list"
  ec_edges_out :: "edge list list"
  ec_edges_in :: "edge list list"
  ec_N :: nat

subsection \<open>The rate tables\<close>

text \<open>
  The first \<open>while\<close> loop of each driver walks the reconnection and the disconnection
  rates in step (the \<open>assert\<close> before it makes the two vectors equally long) and fills
  \<open>single_rates\<close> and \<open>total_rate\<close>.  With one rate pair for all nodes both rates are
  multiplied by \<open>N\<close>; with one rate per node the rates are copied and summed.
\<close>

definition single_rates_global ::
  "nat \<Rightarrow> (real \<times> real) list \<Rightarrow> real list \<Rightarrow> (real \<times> real list) list" where
  "single_rates_global n reconnection_rate disconnection_rate =
     map (\<lambda>(a, b). let alpha = snd a * real n; beta = b * real n in (fst a, [alpha, beta]))
       (zip reconnection_rate disconnection_rate)"

definition total_rate_global ::
  "nat \<Rightarrow> (real \<times> real) list \<Rightarrow> real list \<Rightarrow> (real \<times> real) list" where
  "total_rate_global n reconnection_rate disconnection_rate =
     map (\<lambda>(a, b). let alpha = snd a * real n; beta = b * real n in (fst a, alpha + beta))
       (zip reconnection_rate disconnection_rate)"

definition single_rates_for_each_node ::
  "(real \<times> real list) list \<Rightarrow> real list list \<Rightarrow> (real \<times> real list) list" where
  "single_rates_for_each_node reconnection_rates disconnection_rates =
     map (\<lambda>(a, b). (fst a, snd a @ b)) (zip reconnection_rates disconnection_rates)"

definition total_rate_for_each_node ::
  "(real \<times> real list) list \<Rightarrow> real list list \<Rightarrow> (real \<times> real) list" where
  "total_rate_for_each_node reconnection_rates disconnection_rates =
     map (\<lambda>(a, b). let Alpha = fold (\<lambda>x acc. acc + x) (snd a) 0;
                        Beta = fold (\<lambda>x acc. acc + x) b 0
                    in (fst a, Alpha + Beta))
       (zip reconnection_rates disconnection_rates)"

subsection \<open>The collaborators that are not among the sources\<close>

text \<open>
  The scheduler \<open>get_gillespie_tau_and_event_with_varying_gamma_for_each_node\<close> (Events.h),
  the rewiring functions (Flockwork.h), \<open>seed_engine\<close> and the random number generator are
  parameters.  A scheduler maps \<open>total_rate\<close>, \<open>single_rates\<close>, \<open>t\<close>, \<open>tmax\<close>, \<open>i_t\<close> and
  the generator to \<open>tau\<close>, the event, the new \<open>i_t\<close> and the new generator, or fails.  A
  rewiring maps the network, \<open>P\<close> and the generator to the pair of removed and added
  edges, the new network and the new generator.
\<close>

type_synonym 'gen scheduler =
  "(real \<times> real) list \<Rightarrow> (real \<times> real list) list \<Rightarrow> real \<Rightarrow> real \<Rightarrow> nat \<Rightarrow> 'gen
     \<Rightarrow> error + (real \<times> nat \<times> nat \<times> 'gen)"

type_synonym 'gen rewired = "(edge list \<times> edge list) \<times> graph \<times> 'gen"

type_synonym neighbor_affinity = "(nat list \<times> real list) list"

subsection \<open>The event of one iteration\<close>

text \<open>The body of \<open>if (t < t_run_total)\<close> up to the rewiring, in the four drivers.\<close>

definition event_global ::
  "(graph \<Rightarrow> real \<Rightarrow> 'gen \<Rightarrow> 'gen rewired) \<Rightarrow> nat \<Rightarrow> graph \<Rightarrow> 'gen \<Rightarrow> error + 'gen rewired" where
  "event_global rewire_P_without_SI_checking event g gen =
     (if event = 1 \<or> event = 2
      then (let P = (if event = 1 then 1 else 0)
            in Inr (rewire_P_without_SI_checking g P gen))
      else Inl Length_error)"

definition event_for_each_node ::
  "nat \<Rightarrow> (nat \<Rightarrow> graph \<Rightarrow> real \<Rightarrow> 'gen \<Rightarrow> 'gen rewired) \<Rightarrow> nat \<Rightarrow> graph \<Rightarrow> 'gen
     \<Rightarrow> error + 'gen rewired" where
  "event_for_each_node n rewire_P_without_SI_checking_single_node channel g gen =
     (if 0 < channel \<and> channel < 2 * n + 1
      then (let node = (channel - 1) mod n;
                event = (channel - 1) div n;
                P = (if event = 0 then 1 else 0)
            in Inr (rewire_P_without_SI_checking_single_node node g P gen))
      else Inl Length_error)"

definition event_global_neighbor_affinity ::
  "nat \<Rightarrow> (nat \<Rightarrow> 'gen \<Rightarrow> nat \<times> 'gen)
     \<Rightarrow> (nat \<Rightarrow> graph \<Rightarrow> real \<Rightarrow> neighbor_affinity \<Rightarrow> 'gen \<Rightarrow> 'gen rewired)
     \<Rightarrow> neighbor_affinity \<Rightarrow> nat \<Rightarrow> graph \<Rightarrow> 'gen \<Rightarrow> error + 'gen rewired" where
  "event_global_neighbor_affinity n random_node rewire_neighbor_affinity affinity event g gen =
     (if event = 1 \<or> event = 2
      then (let P = (if event = 1 then 1 else 0);
                drawn = random_node (draw_upper n) gen
            in Inr (rewire_neighbor_affinity (fst drawn) g P affinity (snd drawn)))
      else Inl Length_error)"

definition event_for_each_node_neighbor_affinity ::
  "nat \<Rightarrow> (nat \<Rightarrow> graph \<Rightarrow> real \<Rightarrow> neighbor_affinity \<Rightarrow> 'gen \<Rightarrow> 'gen rewired)
     \<Rightarrow> neighbor_affinity \<Rightarrow> nat \<Rightarrow> graph \<Rightarrow> 'gen \<Rightarrow> error + 'gen rewired" where
  "event_for_each_node_neighbor_affinity n rewire_neighbor_affinity affinity channel g gen =
     (if 0 < channel \<and> channel < 2 * n + 1
      then (let node = (channel - 1) mod n;
                event = (channel - 1) div n;
                P = (if event = 0 then 1 else 0)
            in Inr (rewire_neighbor_affinity node g P affinity gen))
      else Inl Length_error)"

subsection \<open>The simulation loop\<close>

text \<open>The variables of \<open>while (t < t_run_total)\<close>.\<close>

record 'gen fw_state =
  fw_t :: real
  fw_i_t :: nat
  fw_G :: graph
  fw_generator :: 'gen
  fw_time :: "real list"
  fw_edges_out :: "edge list list"
  fw_edges_in :: "edge list list"

text \<open>One iteration: the scheduler is asked, the time advances, and when the new time is
  still below \<open>t_run_total\<close> the event is applied and its edge changes are recorded unless
  both lists are empty.\<close>

definition fw_step ::
  "'gen scheduler \<Rightarrow> (nat \<Rightarrow> graph \<Rightarrow> 'gen \<Rightarrow> error + 'gen rewired)
     \<Rightarrow> (real \<times> real) list \<Rightarrow> (real \<times> real list) list \<Rightarrow> real \<Rightarrow> real
     \<Rightarrow> 'gen fw_state \<Rightarrow> error + 'gen fw_state" where
  "fw_step sched apply_event total_rate single_rates t_run_total tmax s =
     (case sched total_rate single_rates (fw_t s) tmax (fw_i_t s) (fw_generator s) of
        Inl e \<Rightarrow> Inl e
      | Inr (tau, event, i_t, gen) \<Rightarrow>
          (let t = fw_t s + tau in
           if t < t_run_total then
             (case apply_event event (fw_G s) gen of
                Inl e \<Rightarrow> Inl e
              | Inr (curr_edge_change, g, gen') \<Rightarrow>
                  (let s' = s\<lparr> fw_t := t, fw_i_t := i_t, fw_G := g, fw_generator := gen' \<rparr> in
                   if 0 < length (fst curr_edge_change) \<or> 0 < length (snd curr_edge_change)
                   then Inr (s'\<lparr> fw_time := fw_time s @ [t],
                                 fw_edges_out := fw_edges_out s @ [fst curr_edge_change],
                                 fw_edges_in := fw_edges_in s @ [snd curr_edge_change] \<rparr>)
                   else Inr s'))
           else Inr (s\<lparr> fw_t := t, fw_i_t := i_t, fw_generator := gen \<rparr>)))"

text \<open>The loop may run for ever (nothing in the driver bounds the number of events).  It
  is given a number of iterations it may use; \<open>None\<close> says that they did not suffice.\<close>

fun fw_loop ::
  "nat \<Rightarrow> 'gen scheduler \<Rightarrow> (nat \<Rightarrow> graph \<Rightarrow> 'gen \<Rightarrow> error + 'gen rewired)
     \<Rightarrow> (real \<times> real) list \<Rightarrow> (real \<times> real list) list \<Rightarrow> real \<Rightarrow> real
     \<Rightarrow> 'gen fw_state \<Rightarrow> (error + 'gen fw_state) option" where
  "fw_loop 0 sched apply_event total_rate single_rates t_run_total tmax s =
     (if fw_t s < t_run_total then None else Some (Inr s))"
| "fw_loop (Suc k) sched apply_event total_rate single_rates t_run_total tmax s =
     (if fw_t s < t_run_total then
        (case fw_step sched apply_event total_rate single_rates t_run_total tmax s of
           Inl e \<Rightarrow> Some (Inl e)
         | Inr s' \<Rightarrow> fw_loop k sched apply_event total_rate single_rates t_run_total tmax s')
      else Some (Inr s))"

definition fw_result :: "edge list \<Rightarrow> nat \<Rightarrow> real \<Rightarrow> 'gen fw_state \<Rightarrow> edge_changes" where
  "fw_result E n t_run_total s =
     \<lparr> ec_t = fw_time s, ec_tmax = t_run_total, ec_t0 = 0, ec_edges_initial = E,
       ec_edges_out = fw_edges_out s, ec_edges_in = fw_edges_in s, ec_N = n \<rparr>"

text \<open>What the four drivers share: the assertion, the network, the start at the first
  breakpoint \<open>reconnection_rate[0].first\<close>, the loop and the result.\<close>

definition fw_driver ::
  "nat \<Rightarrow> 'gen scheduler \<Rightarrow> (nat \<Rightarrow> graph \<Rightarrow> 'gen \<Rightarrow> error + 'gen rewired) \<Rightarrow> 'gen
     \<Rightarrow> edge list \<Rightarrow> nat \<Rightarrow> bool \<Rightarrow> real list
     \<Rightarrow> (real \<times> real) list \<Rightarrow> (real \<times> real list) list \<Rightarrow> real \<Rightarrow> real
     \<Rightarrow> (error + edge_changes) option" where
  "fw_driver fuel sched apply_event gen E n sizes_equal breakpoints total_rate single_rates
       t_run_total tmax =
     (if \<not> sizes_equal then Some (Inl Assertion_failed)
      else case graph_from_edgelist (replicate n []) E of
        Inl e \<Rightarrow> Some (Inl e)
      | Inr g \<Rightarrow>
         (case breakpoints of
            [] \<Rightarrow> Some (Inl Out_of_bounds)
          | t # _ \<Rightarrow>
             map_option (map_sum id (fw_result E n t_run_total))
               (fw_loop fuel sched apply_event total_rate single_rates t_run_total tmax
                  \<lparr> fw_t = t, fw_i_t = 0, fw_G = g, fw_generator = gen,
                    fw_time = [], fw_edges_out = [], fw_edges_in = [] \<rparr>)))"

definition flockwork_alpha_beta_varying_rates ::
  "nat \<Rightarrow> 'gen scheduler \<Rightarrow> (graph \<Rightarrow> real \<Rightarrow> 'gen \<Rightarrow> 'gen rewired) \<Rightarrow> (nat \<Rightarrow> 'gen)
     \<Rightarrow> edge list \<Rightarrow> nat \<Rightarrow> (real \<times> real) list \<Rightarrow> real list \<Rightarrow> real \<Rightarrow> real \<Rightarrow> bool \<Rightarrow> nat
     \<Rightarrow> (error + edge_changes) option" where
  "flockwork_alpha_beta_varying_rates fuel sched rewire_P_without_SI_checking seed_engine
       E n reconnection_rate disconnection_rate t_run_total tmax use_random_rewiring seed =
     fw_driver fuel sched (event_global rewire_P_without_SI_checking) (seed_engine seed) E n
       (length reconnection_rate = length disconnection_rate)
       (map fst reconnection_rate)
       (total_rate_global n reconnection_rate disconnection_rate)
       (single_rates_global n reconnection_rate disconnection_rate)
       t_run_total tmax"

definition flockwork_alpha_beta_varying_rates_for_each_node ::
  "nat \<Rightarrow> 'gen scheduler \<Rightarrow> (nat \<Rightarrow> graph \<Rightarrow> real \<Rightarrow> 'gen \<Rightarrow> 'gen rewired) \<Rightarrow> (nat \<Rightarrow> 'gen)
     \<Rightarrow> edge list \<Rightarrow> nat \<Rightarrow> (real \<times> real list) list \<Rightarrow> real list list \<Rightarrow> real \<Rightarrow> real
     \<Rightarrow> bool \<Rightarrow> nat \<Rightarrow> (error + edge_changes) option" where
  "flockwork_alpha_beta_varying_rates_for_each_node fuel sched
       rewire_P_without_SI_checking_single_node seed_engine
       E n reconnection_rates disconnection_rates t_run_total tmax use_random_rewiring seed =
     fw_driver fuel sched (event_for_each_node n rewire_P_without_SI_checking_single_node)
       (seed_engine seed) E n
       (length reconnection_rates = length disconnection_rates)
       (map fst reconnection_rates)
       (total_rate_for_each_node reconnection_rates disconnection_rates)
       (single_rates_for_each_node reconnection_rates disconnection_rates)
       t_run_total tmax"

definition flockwork_alpha_beta_varying_rates_with_neighbor_affinity ::
  "nat \<Rightarrow> 'gen scheduler \<Rightarrow> (nat \<Rightarrow> 'gen \<Rightarrow> nat \<times> 'gen)
     \<Rightarrow> (nat \<Rightarrow> graph \<Rightarrow> real \<Rightarrow> neighbor_affinity \<Rightarrow> 'gen \<Rightarrow> 'gen rewired) \<Rightarrow> (nat \<Rightarrow> 'gen)
     \<Rightarrow> edge list \<Rightarrow> nat \<Rightarrow> (real \<times> real) list \<Rightarrow> real list \<Rightarrow> neighbor_affinity
     \<Rightarrow> real \<Rightarrow> real \<Rightarrow> bool \<Rightarrow> nat \<Rightarrow> (error + edge_changes) option" where
  "flockwork_alpha_beta_varying_rates_with_neighbor_affinity fuel sched random_node
       rewire_neighbor_affinity seed_engine
       E n reconnection_rate disconnection_rate affinity t_run_total tmax use_random_rewiring seed =
     fw_driver fuel sched
       (event_global_neighbor_affinity n random_node rewire_neighbor_affinity affinity)
       (seed_engine seed) E n
       (length reconnection_rate = length disconnection_rate)
       (map fst reconnection_rate)
       (total_rate_global n reconnection_rate disconnection_rate)
       (single_rates_global n reconnection_rate disconnection_rate)
       t_run_total tmax"

definition flockwork_alpha_beta_varying_rates_for_each_node_with_neighbor_affinity ::
  "nat \<Rightarrow> 'gen scheduler
     \<Rightarrow> (nat \<Rightarrow> graph \<Rightarrow> real \<Rightarrow> neighbor_affinity \<Rightarrow> 'gen \<Rightarrow> 'gen rewired) \<Rightarrow> (nat \<Rightarrow> 'gen)
     \<Rightarrow> edge list \<Rightarrow> nat \<Rightarrow> (real \<times> real list) list \<Rightarrow> real list list \<Rightarrow> neighbor_affinity
     \<Rightarrow> real \<Rightarrow> real \<Rightarrow> bool \<Rightarrow> nat \<Rightarrow> (error + edge_changes) option" where
  "flockwork_alpha_beta_varying_rates_for_each_node_with_neighbor_affinity fuel sched
       rewire_neighbor_affinity seed_engine
       E n reconnection_rates disconnection_rates affinity t_run_total tmax
       use_random_rewiring seed =
     fw_driver fuel sched
       (event_for_each_node_neighbor_affinity n rewire_neighbor_affinity affinity)
       (seed_engine seed) E n
       (length reconnection_rates = length disconnection_rates)
       (map fst reconnection_rates)
       (total_rate_for_each_node reconnection_rates disconnection_rates)
       (single_rates_for_each_node reconnection_rates disconnection_rates)
       t_run_total tmax"

subsection \<open>Properties of a simulation and of its collaborators\<close>

text \<open>The scheduler's delays are positive.\<close>

definition positive_delays :: "'gen scheduler \<Rightarrow> bool" where
  "positive_delays sched \<longleftrightarrow>
     (\<forall>total_rate single_rates t tmax i_t gen tau event i_t' gen'.
        sched total_rate single_rates t tmax i_t gen = Inr (tau, event, i_t', gen') \<longrightarrow> 0 < tau)"

text \<open>The scheduler never fails, its delays are at least \<open>d > 0\<close>, and the events it
  chooses are events of the driver.\<close>

definition steady ::
  "'gen scheduler \<Rightarrow> (nat \<Rightarrow> graph \<Rightarrow> 'gen \<Rightarrow> error + 'gen rewired) \<Rightarrow> real \<Rightarrow> bool" where
  "steady sched apply_event d \<longleftrightarrow>
     0 < d \<and>
     (\<forall>total_rate single_rates t tmax i_t gen.
        \<exists>tau event i_t' gen'.
          sched total_rate single_rates t tmax i_t gen = Inr (tau, event, i_t', gen') \<and> d \<le> tau \<and>
          (\<forall>g. \<exists>r. apply_event event g gen' = Inr r))"

definition record_ok :: "edge list \<Rightarrow> nat \<Rightarrow> real \<Rightarrow> edge_changes \<Rightarrow> bool" where
  "record_ok E n t_run_total r \<longleftrightarrow>
     ec_t0 r = 0 \<and> ec_tmax r = t_run_total \<and> ec_N r = n \<and> ec_edges_initial r = E \<and>
     length (ec_edges_in r) = length (ec_t r) \<and> length (ec_edges_out r) = length (ec_t r) \<and>
     (\<forall>x \<in> set (ec_t r). x < t_run_total) \<and>
     (ec_t r \<noteq> [] \<longrightarrow> last (ec_t r) \<le> ec_tmax r)"

text \<open>A scheduler with delay \<open>1/2\<close> that always chooses event 1, a rewiring that changes
  nothing, and one that swaps the edge \<open>(0, 1)\<close> for \<open>(0, 2)\<close>.\<close>

definition half_sched :: "unit scheduler" where
  "half_sched total_rate single_rates t tmax i_t gen = Inr (1 / 2, 1, i_t, gen)"

definition idle_rewire :: "graph \<Rightarrow> real \<Rightarrow> unit \<Rightarrow> unit rewired" where
  "idle_rewire g P gen = (([], []), g, gen)"

definition swap_rewire :: "graph \<Rightarrow> real \<Rightarrow> unit \<Rightarrow> unit rewired" where
  "swap_rewire g P gen = (([(0, 1)], [(0, 2)]), g, gen)"

definition start_state :: "unit fw_state" where
  "start_state = \<lparr> fw_t = 0, fw_i_t = 0, fw_G = [[1], [0], []], fw_generator = (),
                   fw_time = [], fw_edges_out = [], fw_edges_in = [] \<rparr>"

section \<open>Social trajectories (social\_trajectories.cpp)\<close>

subsection \<open>Components and their labels\<close>

text \<open>
  Modelled from the spec: \<open>get_component_of_node\<close> (Utilities.h) is not among the sources.
  It returns the connected component of the node, the node itself included, as a set: the
  nodes reached from it along edges.  Here the set grows by the neighbours of its members,
  once for every node of the network.
\<close>

definition neighbours_step :: "graph \<Rightarrow> nat list \<Rightarrow> nat list" where
  "neighbours_step g c = fold (\<lambda>v acc. fold set_insert (g ! v) acc) c c"

definition get_component_of_node :: "nat \<Rightarrow> graph \<Rightarrow> nat list" where
  "get_component_of_node node g = ((neighbours_step g) ^^ length g) [node]"

text \<open>
  The registry \<open>hash_to_int\<close> is a \<open>std::map<size_t, size_t>\<close>: a list of key-value pairs
  with distinct keys, a new key being appended; its \<open>size()\<close> is the length of the list.
  \<open>std::hash<vector<bool>>\<close> is fixed by the C++ library, not by the sources: it is the
  parameter \<open>hash_calculator\<close>.
\<close>

type_synonym registry = "(nat \<times> nat) list"

definition this_group_of :: "nat \<Rightarrow> nat list \<Rightarrow> bool list" where
  "this_group_of n component = fold (\<lambda>node grp. grp[node := True]) component (replicate n False)"

text \<open>\<open>get_group_integer\<close> returns the label; the registry and \<open>this_hash\<close> are passed by
  reference and are returned with it.\<close>

definition get_group_integer ::
  "(bool list \<Rightarrow> nat) \<Rightarrow> nat \<Rightarrow> nat list \<Rightarrow> registry \<Rightarrow> error + (nat \<times> registry \<times> nat)" where
  "get_group_integer hash_calculator n component hash_to_int =
     (let N_hashes = length hash_to_int in
      if \<forall>node \<in> set component. node < n then
        (let this_group = this_group_of n component;
             this_hash = hash_calculator this_group
         in case map_of hash_to_int this_hash of
              Some label \<Rightarrow> Inr (label, hash_to_int, this_hash)
            | None \<Rightarrow> Inr (N_hashes, hash_to_int @ [(this_hash, N_hashes)], this_hash))
      else Inl Out_of_bounds)"

text \<open>A sequence of calls on one registry: the registry after them.\<close>

fun registry_after ::
  "(bool list \<Rightarrow> nat) \<Rightarrow> nat \<Rightarrow> nat list list \<Rightarrow> registry \<Rightarrow> error + registry" where
  "registry_after hash_calculator n [] hash_to_int = Inr hash_to_int"
| "registry_after hash_calculator n (c # cs) hash_to_int =
     (case get_group_integer hash_calculator n c hash_to_int of
        Inl e \<Rightarrow> Inl e
      | Inr (label, hash_to_int', this_hash) \<Rightarrow> registry_after hash_calculator n cs hash_to_int')"

subsection \<open>Interval mode\<close>

text \<open>The class \<open>social_trajectory_entry\<close>; \<open>hash\<close> and \<open>size\<close> carry the prefix \<open>ste_\<close>.\<close>

record social_trajectory_entry =
  ste_hash :: nat
  ste_size :: nat
  time_pairs :: "(real \<times> real) list"

text \<open>The block that occurs twice in the loop: the label of \<open>old_component\<close> is looked up,
  a new entry is appended when the label is the next free index, and the pair of times is
  appended to the entry of that label.\<close>

definition push_time_pair ::
  "(bool list \<Rightarrow> nat) \<Rightarrow> nat \<Rightarrow> nat list \<Rightarrow> real \<times> real
     \<Rightarrow> registry \<times> social_trajectory_entry list
     \<Rightarrow> error + (registry \<times> social_trajectory_entry list)" where
  "push_time_pair hash_calculator n old_component pair rs =
     (case get_group_integer hash_calculator n old_component (fst rs) of
        Inl e \<Rightarrow> Inl e
      | Inr (this_group_int, hash_to_int, this_hash) \<Rightarrow>
          (let social_trajectory =
                 (if this_group_int = length (snd rs)
                  then snd rs @ [\<lparr> ste_hash = this_hash, ste_size = length old_component,
                                   time_pairs = [] \<rparr>]
                  else snd rs)
           in if this_group_int < length social_trajectory
              then Inr (hash_to_int,
                        social_trajectory[this_group_int :=
                          (social_trajectory ! this_group_int)
                            \<lparr> time_pairs := time_pairs (social_trajectory ! this_group_int) @ [pair] \<rparr>])
              else Inl Out_of_bounds))"

definition sorted_edge :: "edge \<Rightarrow> edge" where
  "sorted_edge e = (if fst e > snd e then (snd e, fst e) else e)"

record trajectory_state =
  ts_G :: graph
  last_time_active :: real
  old_component :: "nat list"
  ts_hash_to_int :: registry
  social_trajectory :: "social_trajectory_entry list"

text \<open>The \<open>while\<close> loop: it runs as long as none of the three iterators is at its end.\<close>

fun trajectory_loop ::
  "(bool list \<Rightarrow> nat) \<Rightarrow> nat \<Rightarrow> nat \<Rightarrow> real \<Rightarrow> real
     \<Rightarrow> edge list list \<Rightarrow> real list \<Rightarrow> edge list list
     \<Rightarrow> trajectory_state \<Rightarrow> error + trajectory_state" where
  "trajectory_loop hash_calculator n node t0 tmax
       (these_edges_in # all_edges_in) (t # time) (these_edges_out # all_edges_out) st =
     (if \<not> (edges_in_range n these_edges_out \<and> edges_in_range n these_edges_in)
      then Inl Out_of_bounds
      else
        (let g = fold (\<lambda>e. insert_edge (sorted_edge e)) these_edges_in
                   (fold (\<lambda>e. erase_edge (sorted_edge e)) these_edges_out (ts_G st));
             new_component = get_component_of_node node g;
             component_changed = (old_component st \<noteq> new_component)
         in case (if length (old_component st) > 1 \<and> component_changed \<and> t > t0
                  then push_time_pair hash_calculator n (old_component st) (last_time_active st, t)
                         (ts_hash_to_int st, social_trajectory st)
                  else Inr (ts_hash_to_int st, social_trajectory st)) of
              Inl e \<Rightarrow> Inl e
            | Inr rs \<Rightarrow>
               (let last_active = (if component_changed then t else last_time_active st) in
                case (if time = [] \<and> length new_component > 1
                      then map_sum id (\<lambda>rs'. (rs', tmax))
                             (push_time_pair hash_calculator n new_component (last_active, tmax) rs)
                      else Inr (rs, last_active)) of
                  Inl e \<Rightarrow> Inl e
                | Inr (rs', last_active') \<Rightarrow>
                    trajectory_loop hash_calculator n node t0 tmax all_edges_in time all_edges_out
                      \<lparr> ts_G = g, last_time_active = last_active', old_component = new_component,
                        ts_hash_to_int = fst rs', social_trajectory = snd rs' \<rparr>)))"
| "trajectory_loop hash_calculator n node t0 tmax all_edges_in time all_edges_out st = Inr st"

definition social_trajectory_from_edge_changes ::
  "(bool list \<Rightarrow> nat) \<Rightarrow> edge_changes \<Rightarrow> nat \<Rightarrow> error + social_trajectory_entry list" where
  "social_trajectory_from_edge_changes hash_calculator list_of_edge_changes node =
     (let n = ec_N list_of_edge_changes;
          time = ec_t list_of_edge_changes;
          t0 = ec_t0 list_of_edge_changes;
          tmax = ec_tmax list_of_edge_changes
      in case graph_from_edgelist (replicate n []) (ec_edges_initial list_of_edge_changes) of
           Inl e \<Rightarrow> Inl e
         | Inr g \<Rightarrow>
            if time = [] then Inl Out_of_bounds
            else if tmax < last time then Inl Domain_error
            else if \<not> node < n then Inl Out_of_bounds
            else map_sum id social_trajectory
                   (trajectory_loop hash_calculator n node t0 tmax
                      (ec_edges_in list_of_edge_changes) time (ec_edges_out list_of_edge_changes)
                      \<lparr> ts_G = g, last_time_active = t0,
                        old_component = get_component_of_node node g,
                        ts_hash_to_int = [], social_trajectory = [] \<rparr>))"

text \<open>A registry that was filled by calls for the components \<open>seen\<close>: its labels are
  \<open>0, 1, 2, ...\<close> in the order of entry and its keys are the hashes of these components.\<close>

definition dense :: "(bool list \<Rightarrow> nat) \<Rightarrow> nat \<Rightarrow> nat list list \<Rightarrow> registry \<Rightarrow> bool" where
  "dense hc n seen reg \<longleftrightarrow>
     map snd reg = [0..<length reg] \<and> distinct (map fst reg) \<and>
     fst ` set reg = (\<lambda>c. hc (this_group_of n c)) ` set seen \<and>
     (\<forall>c \<in> set seen. \<forall>node \<in> set c. node < n)"

text \<open>A hash without collisions on vectors of one length: the vector read as a binary
  number.\<close>

fun binary_hash :: "bool list \<Rightarrow> nat" where
  "binary_hash [] = 0"
| "binary_hash (b # bs) = (if b then 1 else 0) + 2 * binary_hash bs"

subsection \<open>Binned mode\<close>

text \<open>The check of \<open>dt\<close> and \<open>N_time_steps\<close>, the same in both binned functions; it
  returns the two values as they are used afterwards.  \<open>modf(x, &intpart) != 0.0\<close> says
  that \<open>x\<close> is no integer.\<close>

definition bin_configuration :: "real \<Rightarrow> nat \<Rightarrow> real \<Rightarrow> real \<Rightarrow> error + (real \<times> nat)" where
  "bin_configuration dt N_time_steps t0 tmax =
     (if dt > 0 \<and> N_time_steps > 0 then Inl Domain_error
      else if dt = 0 \<and> N_time_steps = 0 then Inl Domain_error
      else if dt > 0 \<and> N_time_steps = 0 then
        (let N_t = (tmax - t0) / dt in
         if frac N_t \<noteq> 0 then Inl Domain_error
         else if N_t < 0 then Inl Undefined_conversion
         else Inr (dt, nat \<lfloor>N_t\<rfloor>))
      else if dt = 0 \<and> N_time_steps > 0 then Inr ((tmax - t0) / real N_time_steps, N_time_steps)
      else Inr (dt, N_time_steps))"

text \<open>\<open>current_trajectory_bin->insert(label)\<close>, the iterator being the index \<open>bin\<close>.\<close>

definition insert_into_bin :: "nat \<Rightarrow> nat \<Rightarrow> nat list list \<Rightarrow> error + nat list list" where
  "insert_into_bin bin label trajectory =
     (if bin < length trajectory
      then Inr (trajectory[bin := set_insert label (trajectory ! bin)])
      else Inl Out_of_bounds)"

text \<open>The loop \<open>for (bin = 1; bin <= bin_difference; bin++)\<close>: the iterator moves on and,
  when the condition of the loop body holds, the current label is inserted.\<close>

fun advance_bins ::
  "nat \<Rightarrow> bool \<Rightarrow> nat \<Rightarrow> nat \<Rightarrow> nat list list \<Rightarrow> error + (nat \<times> nat list list)" where
  "advance_bins 0 do_insert label bin trajectory = Inr (bin, trajectory)"
| "advance_bins (Suc k) do_insert label bin trajectory =
     (if do_insert
      then (case insert_into_bin (bin + 1) label trajectory of
              Inl e \<Rightarrow> Inl e
            | Inr trajectory' \<Rightarrow> advance_bins k do_insert label (bin + 1) trajectory')
      else advance_bins k do_insert label (bin + 1) trajectory)"

record binned_state =
  bs_G :: graph
  current_trajectory_bin :: nat
  old_bin_number :: nat
  current_group_integer :: nat
  bs_hash_to_int :: registry
  trajectory :: "nat list list"

text \<open>The body of \<open>while (it_time != time.end())\<close>; \<open>next_graph\<close> is the part in which
  the two binned functions differ.\<close>

definition binned_step ::
  "(bool list \<Rightarrow> nat) \<Rightarrow> nat \<Rightarrow> nat \<Rightarrow> real \<Rightarrow> real \<Rightarrow> real \<Rightarrow> nat
     \<Rightarrow> real \<Rightarrow> (graph \<Rightarrow> error + graph) \<Rightarrow> binned_state \<Rightarrow> error + binned_state" where
  "binned_step hash_calculator n node t0 tmax dt N_time_steps this_time next_graph st =
     (if tmax - t0 = 0 \<or> (this_time - t0) / (tmax - t0) * real N_time_steps < 0
      then Inl Undefined_conversion
      else
        (let bin_number = nat \<lfloor>(this_time - t0) / (tmax - t0) * real N_time_steps\<rfloor>;
             bin_difference = (bin_number + 2 ^ 64 - old_bin_number st) mod 2 ^ 64;
             do_insert = (length (bs_G st ! node) > 0 \<and> t0 + real bin_number * dt > this_time \<and>
                          current_group_integer st < length (bs_hash_to_int st))
         in case advance_bins bin_difference do_insert (current_group_integer st)
                   (current_trajectory_bin st) (trajectory st) of
              Inl e \<Rightarrow> Inl e
            | Inr (bin, trajectory1) \<Rightarrow>
               (case next_graph (bs_G st) of
                  Inl e \<Rightarrow> Inl e
                | Inr g \<Rightarrow>
                   (let st1 = st\<lparr> bs_G := g, current_trajectory_bin := bin,
                                  old_bin_number := bin_number, trajectory := trajectory1 \<rparr>
                    in if length (g ! node) > 0 then
                         (case get_group_integer hash_calculator n (get_component_of_node node g)
                                 (bs_hash_to_int st) of
                            Inl e \<Rightarrow> Inl e
                          | Inr (label, hash_to_int, this_hash) \<Rightarrow>
                             (case insert_into_bin bin label trajectory1 of
                                Inl e \<Rightarrow> Inl e
                              | Inr trajectory2 \<Rightarrow>
                                  Inr (st1\<lparr> current_group_integer := label,
                                            bs_hash_to_int := hash_to_int,
                                            trajectory := trajectory2 \<rparr>)))
                       else Inr st1))))"

text \<open>The loop ends with the time list; an event without its edge lists is a read past
  the end of a vector.\<close>

fun binned_loop ::
  "(bool list \<Rightarrow> nat) \<Rightarrow> nat \<Rightarrow> nat \<Rightarrow> real \<Rightarrow> real \<Rightarrow> real \<Rightarrow> nat
     \<Rightarrow> real list \<Rightarrow> (graph \<Rightarrow> error + graph) list \<Rightarrow> binned_state \<Rightarrow> error + binned_state" where
  "binned_loop hash_calculator n node t0 tmax dt N_time_steps [] updates st = Inr st"
| "binned_loop hash_calculator n node t0 tmax dt N_time_steps (this_time # time) [] st =
     Inl Out_of_bounds"
| "binned_loop hash_calculator n node t0 tmax dt N_time_steps (this_time # time)
       (next_graph # updates) st =
     (case binned_step hash_calculator n node t0 tmax dt N_time_steps this_time next_graph st of
        Inl e \<Rightarrow> Inl e
      | Inr st' \<Rightarrow> binned_loop hash_calculator n node t0 tmax dt N_time_steps time updates st')"

text \<open>The graph update of \<open>binned_social_trajectory_from_edge_changes\<close>: the edges of
  \<open>edges_in\<close> are inserted, then those of \<open>edges_out\<close> are erased.\<close>

definition apply_edge_changes :: "nat \<Rightarrow> edge list \<times> edge list \<Rightarrow> graph \<Rightarrow> error + graph" where
  "apply_edge_changes n io g =
     (if edges_in_range n (fst io) \<and> edges_in_range n (snd io)
      then Inr (fold erase_edge (snd io) (fold insert_edge (fst io) g))
      else Inl Out_of_bounds)"

definition binned_social_trajectory_from_edge_changes ::
  "(bool list \<Rightarrow> nat) \<Rightarrow> edge_changes \<Rightarrow> nat \<Rightarrow> real \<Rightarrow> nat \<Rightarrow> error + nat list list" where
  "binned_social_trajectory_from_edge_changes hash_calculator list_of_edge_changes node
       dt0 N_time_steps0 =
     (let n = ec_N list_of_edge_changes;
          time = ec_t list_of_edge_changes;
          t0 = ec_t0 list_of_edge_changes;
          tmax = ec_tmax list_of_edge_changes
      in case graph_from_edgelist (replicate n []) (ec_edges_initial list_of_edge_changes) of
           Inl e \<Rightarrow> Inl e
         | Inr g \<Rightarrow>
            (case bin_configuration dt0 N_time_steps0 t0 tmax of
               Inl e \<Rightarrow> Inl e
             | Inr (dt, N_time_steps) \<Rightarrow>
                if \<not> node < n then Inl Out_of_bounds
                else
                  (case (if length (g ! node) > 0 then
                           (case get_group_integer hash_calculator n (get_component_of_node node g) [] of
                              Inl e \<Rightarrow> Inl e
                            | Inr (label, hash_to_int, this_hash) \<Rightarrow>
                                map_sum id (\<lambda>tr. (label, hash_to_int, tr))
                                  (insert_into_bin 0 label (replicate N_time_steps [])))
                         else Inr (1, [], replicate N_time_steps [])) of
                     Inl e \<Rightarrow> Inl e
                   | Inr (label, hash_to_int, tr) \<Rightarrow>
                      if time = [] then Inl Out_of_bounds
                      else if tmax < last time then Inl Domain_error
                      else map_sum id trajectory
                             (binned_loop hash_calculator n node t0 tmax dt N_time_steps time
                                (map (apply_edge_changes n)
                                   (zip (ec_edges_in list_of_edge_changes)
                                        (ec_edges_out list_of_edge_changes)))
                                \<lparr> bs_G = g, current_trajectory_bin = 0, old_bin_number = 0,
                                  current_group_integer = label, bs_hash_to_int = hash_to_int,
                                  trajectory = tr \<rparr>))))"

text \<open>The result class \<open>edge_lists\<close>; its members carry the prefix \<open>el_\<close>.\<close>

record edge_lists =
  el_t :: "real list"
  el_edges :: "edge list list"
  el_N :: nat
  el_tmax :: real

definition binned_social_trajectory_from_edge_lists ::
  "(bool list \<Rightarrow> nat) \<Rightarrow> edge_lists \<Rightarrow> nat \<Rightarrow> real \<Rightarrow> nat \<Rightarrow> error + nat list list" where
  "binned_social_trajectory_from_edge_lists hash_calculator list_of_edge_lists node
       dt0 N_time_steps0 =
     (let time = el_t list_of_edge_lists;
          tmax = el_tmax list_of_edge_lists;
          n = el_N list_of_edge_lists
      in case time of
           [] \<Rightarrow> Inl Out_of_bounds
         | t0 # _ \<Rightarrow>
            if tmax < last time then Inl Domain_error
            else
              (case bin_configuration dt0 N_time_steps0 t0 tmax of
                 Inl e \<Rightarrow> Inl e
               | Inr (dt, N_time_steps) \<Rightarrow>
                  if \<not> node < n then Inl Out_of_bounds
                  else map_sum id trajectory
                         (binned_loop hash_calculator n node t0 tmax dt N_time_steps time
                            (map (\<lambda>es g. graph_from_edgelist g es) (el_edges list_of_edge_lists))
                            \<lparr> bs_G = replicate n [], current_trajectory_bin = 0, old_bin_number = 0,
                              current_group_integer = 1, bs_hash_to_int = [],
                              trajectory = replicate N_time_steps [] \<rparr>)))"

subsection \<open>Concrete streams\<close>

text \<open>Four nodes with the edges \<open>(0,1)\<close> and \<open>(2,3)\<close> and one event at time 1 that adds
  \<open>(1,2)\<close>, observed from \<open>t0 = 0\<close> to \<open>tmax = 2\<close>; two nodes with the edge \<open>(0,1)\<close> and
  no event at all; three nodes with the edge \<open>(0,1)\<close> and one event at time \<open>5/2\<close> that
  adds \<open>(1,2)\<close>, observed from 0 to 4, as changes and as snapshots; two nodes without
  edges and one event at time 1 that changes nothing.\<close>

definition merging_stream :: edge_changes where
  "merging_stream =
     \<lparr> ec_t = [1], ec_tmax = 2, ec_t0 = 0, ec_edges_initial = [(0, 1), (2, 3)],
       ec_edges_out = [[]], ec_edges_in = [[(1, 2)]], ec_N = 4 \<rparr>"

definition static_stream :: edge_changes where
  "static_stream =
     \<lparr> ec_t = [], ec_tmax = 1, ec_t0 = 0, ec_edges_initial = [(0, 1)],
       ec_edges_out = [], ec_edges_in = [], ec_N = 2 \<rparr>"

definition growing_stream :: edge_changes where
  "growing_stream =
     \<lparr> ec_t = [5 / 2], ec_tmax = 4, ec_t0 = 0, ec_edges_initial = [(0, 1)],
       ec_edges_out = [[]], ec_edges_in = [[(1, 2)]], ec_N = 3 \<rparr>"

definition growing_snapshots :: edge_lists where
  "growing_snapshots =
     \<lparr> el_t = [0, 5 / 2], el_edges = [[(0, 1)], [(0, 1), (1, 2)]], el_N = 3, el_tmax = 4 \<rparr>"

definition idle_stream :: edge_changes where
  "idle_stream =
     \<lparr> ec_t = [1], ec_tmax = 2, ec_t0 = 0, ec_edges_initial = [],
       ec_edges_out = [[]], ec_edges_in = [[]], ec_N = 2 \<rparr>"

definition idle_snapshots :: edge_lists where
  "idle_snapshots = \<lparr> el_t = [0, 1], el_edges = [[], []], el_N = 2, el_tmax = 2 \<rparr>"

subsection \<open>Intervals that tile the run\<close>

text \<open>A list of intervals is a chain from \<open>a\<close> to \<open>b\<close> when the first starts at \<open>a\<close>, each
  ends where the next one starts and the last ends at \<open>b\<close>: no gap, no overlap.  The
  intervals of a trajectory, over all its labels, tile \<open>[a, b]\<close> when they can be put in
  such a chain.\<close>

fun chain :: "real \<Rightarrow> real \<Rightarrow> (real \<times> real) list \<Rightarrow> bool" where
  "chain a b [] \<longleftrightarrow> a = b"
| "chain a b (p # ps) \<longleftrightarrow> fst p = a \<and> a \<le> snd p \<and> chain (snd p) b ps"

definition all_pairs :: "social_trajectory_entry list \<Rightarrow> (real \<times> real) list" where
  "all_pairs tr = concat (map time_pairs tr)"

definition tiles :: "real \<Rightarrow> real \<Rightarrow> social_trajectory_entry list \<Rightarrow> bool" where
  "tiles a b tr \<longleftrightarrow> (\<exists>ch. mset ch = mset (all_pairs tr) \<and> chain a b ch)"

text \<open>The networks of a stream in interval mode, after each event in turn.\<close>

fun networks_after :: "graph \<Rightarrow> edge list list \<Rightarrow> edge list list \<Rightarrow> graph list" where
  "networks_after g (these_edges_in # all_edges_in) (these_edges_out # all_edges_out) =
     (let g' = fold (\<lambda>e. insert_edge (sorted_edge e)) these_edges_in
                 (fold (\<lambda>e. erase_edge (sorted_edge e)) these_edges_out g)
      in g' # networks_after g' all_edges_in all_edges_out)"
| "networks_after g all_edges_in all_edges_out = []"

text \<open>All neighbours are nodes of the network.\<close>

definition in_range :: "graph \<Rightarrow> nat \<Rightarrow> bool" where
  "in_range g n \<longleftrightarrow> length g = n \<and> (\<forall>i \<in> set [0..<n]. \<forall>j \<in> set (g ! i). j < n)"

text \<open>Every label of the registry has its entry in the trajectory, and the next free
  label is the next free index.\<close>

definition labels_ok :: "registry \<Rightarrow> social_trajectory_entry list \<Rightarrow> bool" where
  "labels_ok reg tr \<longleftrightarrow> length reg = length tr \<and> (\<forall>p \<in> set reg. snd p < length tr)"

section \<open>Proofs: the SIRS cache\<close>


lemma set_scan_SI:
  "(i, s) \<in> set (scan_SI g status infs) \<longleftrightarrow> i \<in> set infs \<and> s \<in> set (g ! i) \<and> status ! s = EPI_S"
  by (auto simp: scan_SI_def)

lemma in_nodes_with: "i \<in> set (nodes_with status x) \<longleftrightarrow> i < length status \<and> status ! i = x"
  by (simp add: nodes_with_def)

lemma in_SI_pairs:
  "(i, s) \<in> SI_pairs g status \<longleftrightarrow>
     i < length status \<and> s < length status \<and> status ! i = EPI_I \<and> status ! s = EPI_S \<and> s \<in> set (g ! i)"
  by (auto simp: SI_pairs_def)

lemma graph_okD:
  "graph_ok g n \<Longrightarrow> i < n \<Longrightarrow> j \<in> set (g ! i) \<Longrightarrow> j < n \<and> i \<in> set (g ! j)"
  unfolding graph_ok_def by (metis atLeastLessThan_iff zero_le set_upt)

lemma graph_ok_length: "graph_ok g n \<Longrightarrow> length g = n"
  unfolding graph_ok_def by blast

lemma wf_graph: "sirs_wf st \<Longrightarrow> graph_ok (sirs_G st) (length (node_status st))"
  by (simp add: sirs_wf_def)

lemma wf_infected: "sirs_wf st \<Longrightarrow> i \<in> set (infected st) \<longleftrightarrow> i < length (node_status st) \<and> node_status st ! i = EPI_I"
  by (simp add: sirs_wf_def in_nodes_with)

lemma wf_recovered: "sirs_wf st \<Longrightarrow> i \<in> set (recovered st) \<longleftrightarrow> i < length (node_status st) \<and> node_status st ! i = EPI_R"
  by (simp add: sirs_wf_def in_nodes_with)

lemma consistentD: "SI_consistent st \<Longrightarrow> e \<in> set (SI_edges st) \<longleftrightarrow> e \<in> SI_pairs (sirs_G st) (node_status st)"
  by (simp add: SI_consistent_def)

lemma scan_SI_pairs:
  assumes "sirs_wf st"
  shows "set (scan_SI (sirs_G st) (node_status st) (infected st)) = SI_pairs (sirs_G st) (node_status st)"
proof (rule set_eqI)
  fix e :: edge
  obtain i s where e: "e = (i, s)" by (cases e)
  show "e \<in> set (scan_SI (sirs_G st) (node_status st) (infected st)) \<longleftrightarrow> e \<in> SI_pairs (sirs_G st) (node_status st)"
    unfolding e set_scan_SI in_SI_pairs wf_infected[OF assms]
    using graph_okD[OF wf_graph[OF assms]] by blast
qed

lemma wf_neighbours_in_range:
  assumes "sirs_wf st" "x < length (node_status st)"
  shows "neighbours_in_range st x"
  using graph_okD[OF wf_graph[OF assms(1)] assms(2)] graph_ok_length[OF wf_graph[OF assms(1)]] assms(2)
  unfolding neighbours_in_range_def by simp


lemma SI_member:
  assumes "sirs_wf st" "SI_consistent st" "r < length (SI_edges st)"
  shows "snd (SI_edges st ! r) < length (node_status st) \<and> node_status st ! snd (SI_edges st ! r) = EPI_S"
proof -
  have "SI_edges st ! r \<in> set (SI_edges st)" using assms(3) by simp
  then have "(fst (SI_edges st ! r), snd (SI_edges st ! r)) \<in> SI_pairs (sirs_G st) (node_status st)"
    using consistentD[OF assms(2)] by simp
  then show ?thesis unfolding in_SI_pairs by simp
qed

lemma infection_event_ok:
  assumes wf: "sirs_wf st" and c: "SI_consistent st" and r: "r < length (SI_edges st)"
  shows "\<exists>st'. infection_event r st = Inr st' \<and> sirs_wf st' \<and> SI_consistent st'"
proof -
  define x where "x = snd (SI_edges st ! r)"
  define n where "n = length (node_status st)"
  define status where "status = (node_status st)[x := EPI_I]"
  have x: "x < n" "node_status st ! x = EPI_S"
    using SI_member[OF wf c r] by (simp_all add: x_def n_def)
  have nr: "neighbours_in_range st x" using wf_neighbours_in_range[OF wf] x(1) by (simp add: n_def)
  define st' where "st' = st\<lparr> infected := infected st @ [x],
                        node_status := status,
                        SI_edges := filter (\<lambda>e. snd e \<noteq> x) (SI_edges st) @ map (\<lambda>nb. (x, nb))
                                      (filter (\<lambda>nb. status ! nb = EPI_S) (sirs_G st ! x)) \<rparr>"
  have e: "infection_event r st = Inr st'"
    using r nr by (simp add: infection_event_def Let_def x_def[symmetric] st'_def status_def)
  have g: "graph_ok (sirs_G st) n" using wf_graph[OF wf] by (simp add: n_def)
  have len: "length status = n" by (simp add: status_def n_def)
  have stI: "\<And>i. i < n \<Longrightarrow> status ! i = EPI_I \<longleftrightarrow> (i = x \<or> node_status st ! i = EPI_I)"
    using x by (auto simp: status_def n_def nth_list_update)
  have stR: "\<And>i. i < n \<Longrightarrow> status ! i = EPI_R \<longleftrightarrow> node_status st ! i = EPI_R"
    using x by (auto simp: status_def n_def nth_list_update)
  have stS: "\<And>i. i < n \<Longrightarrow> status ! i = EPI_S \<longleftrightarrow> (i \<noteq> x \<and> node_status st ! i = EPI_S)"
    using x by (auto simp: status_def n_def nth_list_update)
  have xinf: "x \<notin> set (infected st)" using x by (simp add: wf_infected[OF wf])
  have w1: "graph_ok (sirs_G st') (length (node_status st'))" using g by (simp add: st'_def len)
  have w2: "distinct (infected st')" using wf xinf by (simp add: st'_def sirs_wf_def)
  have w3: "set (infected st') = set (nodes_with (node_status st') EPI_I)"
  proof (rule set_eqI)
    fix i show "i \<in> set (infected st') \<longleftrightarrow> i \<in> set (nodes_with (node_status st') EPI_I)"
      using stI[of i] x(1) by (auto simp: st'_def in_nodes_with len wf_infected[OF wf] n_def[symmetric])
  qed
  have w4: "distinct (recovered st')" using wf by (simp add: st'_def sirs_wf_def)
  have w5: "set (recovered st') = set (nodes_with (node_status st') EPI_R)"
  proof (rule set_eqI)
    fix i show "i \<in> set (recovered st') \<longleftrightarrow> i \<in> set (nodes_with (node_status st') EPI_R)"
      using stR[of i] by (auto simp: st'_def in_nodes_with len wf_recovered[OF wf] n_def[symmetric])
  qed
  have w: "sirs_wf st'" unfolding sirs_wf_def using w1 w2 w3 w4 w5 by blast
  have "set (SI_edges st') = SI_pairs (sirs_G st') (node_status st')"
  proof (rule set_eqI)
    fix e :: edge
    obtain i s where e: "e = (i, s)" by (cases e)
    have old: "(i, s) \<in> set (SI_edges st) \<longleftrightarrow>
        i < n \<and> s < n \<and> node_status st ! i = EPI_I \<and> node_status st ! s = EPI_S \<and> s \<in> set (sirs_G st ! i)"
      using consistentD[OF c, of "(i, s)"] by (simp add: in_SI_pairs n_def)
    have nb: "s \<in> set (sirs_G st ! x) \<Longrightarrow> s < n" using graph_okD[OF g x(1)] by blast
    show "e \<in> set (SI_edges st') \<longleftrightarrow> e \<in> SI_pairs (sirs_G st') (node_status st')"
      unfolding e in_SI_pairs using old nb stI[of i] stS[of s] x
      by (auto simp: st'_def len)
  qed
  then have "SI_consistent st'" by (simp add: SI_consistent_def)
  with e w show ?thesis by blast
qed


lemma erase_mid:
  "distinct (ys @ a # zs) \<Longrightarrow> distinct (ys @ zs) \<and> set (ys @ zs) = set (ys @ a # zs) - {a}"
  by auto

lemma erase_at:
  assumes "distinct xs" "r < length xs"
  shows "distinct (take r xs @ drop (Suc r) xs) \<and> set (take r xs @ drop (Suc r) xs) = set xs - {xs ! r}"
proof -
  have xs: "take r xs @ xs ! r # drop (Suc r) xs = xs" using assms(2) by (simp add: id_take_nth_drop[symmetric])
  have "distinct (take r xs @ xs ! r # drop (Suc r) xs)" using assms(1) by (simp only: xs)
  from erase_mid[OF this] show ?thesis by (simp only: xs)
qed

lemma recovery_event_ok:
  assumes wf: "sirs_wf st" and c: "SI_consistent st" and r: "r < length (infected st)"
  shows "\<exists>st'. recovery_event r st = Inr st' \<and> sirs_wf st' \<and> SI_consistent st'"
proof -
  define x where "x = infected st ! r"
  define n where "n = length (node_status st)"
  define status where "status = (node_status st)[x := EPI_R]"
  have "x \<in> set (infected st)" using r by (simp add: x_def)
  then have x: "x < n" "node_status st ! x = EPI_I" by (simp_all add: wf_infected[OF wf] n_def)
  define st' where "st' = st\<lparr> infected := take r (infected st) @ drop (Suc r) (infected st),
                    recovered := recovered st @ [x],
                    node_status := status,
                    SI_edges := filter (\<lambda>e. fst e \<noteq> x) (SI_edges st) \<rparr>"
  have e: "recovery_event r st = Inr st'"
    using r x(1) by (simp add: recovery_event_def Let_def x_def[symmetric] st'_def status_def n_def)
  have g: "graph_ok (sirs_G st) n" using wf_graph[OF wf] by (simp add: n_def)
  have len: "length status = n" by (simp add: status_def n_def)
  have stI: "\<And>i. i < n \<Longrightarrow> status ! i = EPI_I \<longleftrightarrow> (i \<noteq> x \<and> node_status st ! i = EPI_I)"
    using x by (auto simp: status_def n_def nth_list_update)
  have stR: "\<And>i. i < n \<Longrightarrow> status ! i = EPI_R \<longleftrightarrow> (i = x \<or> node_status st ! i = EPI_R)"
    using x by (auto simp: status_def n_def nth_list_update)
  have stS: "\<And>i. i < n \<Longrightarrow> status ! i = EPI_S \<longleftrightarrow> node_status st ! i = EPI_S"
    using x by (auto simp: status_def n_def nth_list_update)
  have di: "distinct (infected st)" using wf by (simp add: sirs_wf_def)
  have er: "distinct (take r (infected st) @ drop (Suc r) (infected st))"
           "set (take r (infected st) @ drop (Suc r) (infected st)) = set (infected st) - {x}"
    using erase_at[OF di r] by (simp_all add: x_def)
  have xrec: "x \<notin> set (recovered st)" using x by (simp add: wf_recovered[OF wf])
  have w1: "graph_ok (sirs_G st') (length (node_status st'))" using g by (simp add: st'_def len)
  have w2: "distinct (infected st')" using er(1) by (simp add: st'_def)
  have w3: "set (infected st') = set (nodes_with (node_status st') EPI_I)"
  proof (rule set_eqI)
    fix i show "i \<in> set (infected st') \<longleftrightarrow> i \<in> set (nodes_with (node_status st') EPI_I)"
      using stI[of i] er(2) by (auto simp: st'_def in_nodes_with len wf_infected[OF wf] n_def[symmetric])
  qed
  have w4: "distinct (recovered st')" using wf xrec by (simp add: st'_def sirs_wf_def)
  have w5: "set (recovered st') = set (nodes_with (node_status st') EPI_R)"
  proof (rule set_eqI)
    fix i show "i \<in> set (recovered st') \<longleftrightarrow> i \<in> set (nodes_with (node_status st') EPI_R)"
      using stR[of i] x(1) by (auto simp: st'_def in_nodes_with len wf_recovered[OF wf] n_def[symmetric])
  qed
  have w: "sirs_wf st'" unfolding sirs_wf_def using w1 w2 w3 w4 w5 by blast
  have "set (SI_edges st') = SI_pairs (sirs_G st') (node_status st')"
  proof (rule set_eqI)
    fix e :: edge
    obtain i s where e: "e = (i, s)" by (cases e)
    have old: "(i, s) \<in> set (SI_edges st) \<longleftrightarrow>
        i < n \<and> s < n \<and> node_status st ! i = EPI_I \<and> node_status st ! s = EPI_S \<and> s \<in> set (sirs_G st ! i)"
      using consistentD[OF c, of "(i, s)"] by (simp add: in_SI_pairs n_def)
    show "e \<in> set (SI_edges st') \<longleftrightarrow> e \<in> SI_pairs (sirs_G st') (node_status st')"
      unfolding e in_SI_pairs using old stI[of i] stS[of s] x
      by (auto simp: st'_def len)
  qed
  then have "SI_consistent st'" by (simp add: SI_consistent_def)
  with e w show ?thesis by blast
qed

lemma susceptible_event_ok:
  assumes wf: "sirs_wf st" and c: "SI_consistent st" and r: "r < length (recovered st)"
  shows "\<exists>st'. susceptible_event r st = Inr st' \<and> sirs_wf st' \<and> SI_consistent st'"
proof -
  define x where "x = recovered st ! r"
  define n where "n = length (node_status st)"
  define status where "status = (node_status st)[x := EPI_S]"
  have "x \<in> set (recovered st)" using r by (simp add: x_def)
  then have x: "x < n" "node_status st ! x = EPI_R" by (simp_all add: wf_recovered[OF wf] n_def)
  have nr: "neighbours_in_range st x" using wf_neighbours_in_range[OF wf] x(1) by (simp add: n_def)
  define st' where "st' = st\<lparr> recovered := take r (recovered st) @ drop (Suc r) (recovered st),
                        node_status := status,
                        SI_edges := SI_edges st @ map (\<lambda>nb. (nb, x))
                                      (filter (\<lambda>nb. status ! nb = EPI_I) (sirs_G st ! x)) \<rparr>"
  have e: "susceptible_event r st = Inr st'"
    using r nr by (simp add: susceptible_event_def Let_def x_def[symmetric] st'_def status_def)
  have g: "graph_ok (sirs_G st) n" using wf_graph[OF wf] by (simp add: n_def)
  have len: "length status = n" by (simp add: status_def n_def)
  have stI: "\<And>i. i < n \<Longrightarrow> status ! i = EPI_I \<longleftrightarrow> node_status st ! i = EPI_I"
    using x by (auto simp: status_def n_def nth_list_update)
  have stR: "\<And>i. i < n \<Longrightarrow> status ! i = EPI_R \<longleftrightarrow> (i \<noteq> x \<and> node_status st ! i = EPI_R)"
    using x by (auto simp: status_def n_def nth_list_update)
  have stS: "\<And>i. i < n \<Longrightarrow> status ! i = EPI_S \<longleftrightarrow> (i = x \<or> node_status st ! i = EPI_S)"
    using x by (auto simp: status_def n_def nth_list_update)
  have dr: "distinct (recovered st)" using wf by (simp add: sirs_wf_def)
  have er: "distinct (take r (recovered st) @ drop (Suc r) (recovered st))"
           "set (take r (recovered st) @ drop (Suc r) (recovered st)) = set (recovered st) - {x}"
    using erase_at[OF dr r] by (simp_all add: x_def)
  have w1: "graph_ok (sirs_G st') (length (node_status st'))" using g by (simp add: st'_def len)
  have w2: "distinct (infected st')" using wf by (simp add: st'_def sirs_wf_def)
  have w3: "set (infected st') = set (nodes_with (node_status st') EPI_I)"
  proof (rule set_eqI)
    fix i show "i \<in> set (infected st') \<longleftrightarrow> i \<in> set (nodes_with (node_status st') EPI_I)"
      using stI[of i] by (auto simp: st'_def in_nodes_with len wf_infected[OF wf] n_def[symmetric])
  qed
  have w4: "distinct (recovered st')" using er(1) by (simp add: st'_def)
  have w5: "set (recovered st') = set (nodes_with (node_status st') EPI_R)"
  proof (rule set_eqI)
    fix i show "i \<in> set (recovered st') \<longleftrightarrow> i \<in> set (nodes_with (node_status st') EPI_R)"
      using stR[of i] er(2) by (auto simp: st'_def in_nodes_with len wf_recovered[OF wf] n_def[symmetric])
  qed
  have w: "sirs_wf st'" unfolding sirs_wf_def using w1 w2 w3 w4 w5 by blast
  have "set (SI_edges st') = SI_pairs (sirs_G st') (node_status st')"
  proof (rule set_eqI)
    fix e :: edge
    obtain i s where e: "e = (i, s)" by (cases e)
    have old: "(i, s) \<in> set (SI_edges st) \<longleftrightarrow>
        i < n \<and> s < n \<and> node_status st ! i = EPI_I \<and> node_status st ! s = EPI_S \<and> s \<in> set (sirs_G st ! i)"
      using consistentD[OF c, of "(i, s)"] by (simp add: in_SI_pairs n_def)
    have nb: "i \<in> set (sirs_G st ! x) \<Longrightarrow> i < n \<and> x \<in> set (sirs_G st ! i)" using graph_okD[OF g x(1)] by blast
    have nb': "i < n \<Longrightarrow> x \<in> set (sirs_G st ! i) \<Longrightarrow> i \<in> set (sirs_G st ! x)" using graph_okD[OF g, of i x] by blast
    show "e \<in> set (SI_edges st') \<longleftrightarrow> e \<in> SI_pairs (sirs_G st') (node_status st')"
      unfolding e in_SI_pairs using old nb nb' stI[of i] stS[of s] x
      by (auto simp: st'_def len)
  qed
  then have "SI_consistent st'" by (simp add: SI_consistent_def)
  with e w show ?thesis by blast
qed

lemma in_fold_push_edge_in:
  "(i, s) \<in> set (fold (push_edge_in status) es si) \<longleftrightarrow>
     (i, s) \<in> set si \<or> (status ! i = EPI_I \<and> status ! s = EPI_S \<and> ((i, s) \<in> set es \<or> (s, i) \<in> set es))"
proof (induction es arbitrary: si)
  case Nil
  show ?case by simp
next
  case (Cons e es)
  obtain u v where e: "e = (u, v)" by (cases e)
  show ?case unfolding fold_simps Cons.IH e
    by (auto simp: push_edge_in_def)
qed

lemma leaving_ascending:
  assumes "ascending es"
  shows "leaving es (i, s) \<longleftrightarrow> (i, s) \<in> set es \<or> (s, i) \<in> set es"
proof -
  have a: "\<And>a b. (a, b) \<in> set es \<Longrightarrow> a < b" using assms unfolding ascending_def by fastforce
  show ?thesis
  proof (cases "s < i")
    case True
    then have "(i, s) \<notin> set es" using a[of i s] by auto
    with True show ?thesis by (simp add: leaving_def)
  next
    case False
    then have "(s, i) \<notin> set es" using a[of s i] by auto
    with False show ?thesis by (simp add: leaving_def)
  qed
qed

lemma network_changed_byD:
  assumes "network_changed_by g g' ein eout" "i < length g" "j < length g"
  shows "j \<in> set (g' ! i) \<longleftrightarrow>
          (j \<in> set (g ! i) \<and> (i, j) \<notin> set eout \<and> (j, i) \<notin> set eout)
          \<or> (i, j) \<in> set ein \<or> (j, i) \<in> set ein"
  using assms unfolding network_changed_by_def by simp

lemma update_network_ok:
  assumes wf: "sirs_wf st" and c: "SI_consistent st"
    and rng: "edges_in_range (length (node_status st)) edges_in"
    and g': "graph_ok g' (length (node_status st))"
    and ch: "network_changed_by (sirs_G st) g' edges_in edges_out"
    and asc: "ascending edges_out"
  shows "\<exists>st'. update_network g' edges_in edges_out t st = Inr st' \<and> sirs_wf st' \<and> SI_consistent st'"
proof -
  define n where "n = length (node_status st)"
  define st1 where "st1 = st\<lparr> sirs_G := g',
                  mean_degree := compute_mean_degree g' (sirs_N st),
                  SI_edges := fold (push_edge_in (node_status st)) edges_in
                                (filter (\<lambda>e. \<not> leaving edges_out e) (SI_edges st)) \<rparr>"
  define st' where "st' = update_observables t st1"
  have e: "update_network g' edges_in edges_out t st = Inr st'"
    using rng by (simp add: update_network_def st'_def st1_def)
  have f: "sirs_G st' = g'" "node_status st' = node_status st" "infected st' = infected st"
      "recovered st' = recovered st"
      "SI_edges st' = fold (push_edge_in (node_status st)) edges_in
                                (filter (\<lambda>e. \<not> leaving edges_out e) (SI_edges st))"
    by (simp_all add: st'_def st1_def update_observables_def)
  have w: "sirs_wf st'" using wf g' unfolding sirs_wf_def f by simp
  have lg: "length (sirs_G st) = n" using graph_ok_length[OF wf_graph[OF wf]] by (simp add: n_def)
  have "set (SI_edges st') = SI_pairs (sirs_G st') (node_status st')"
  proof (rule set_eqI)
    fix e :: edge
    obtain i s where e: "e = (i, s)" by (cases e)
    have old: "(i, s) \<in> set (SI_edges st) \<longleftrightarrow>
        i < n \<and> s < n \<and> node_status st ! i = EPI_I \<and> node_status st ! s = EPI_S \<and> s \<in> set (sirs_G st ! i)"
      using consistentD[OF c, of "(i, s)"] by (simp add: in_SI_pairs n_def)
    have r1: "(i, s) \<in> set edges_in \<Longrightarrow> i < n \<and> s < n" 
      using rng unfolding edges_in_range_def n_def by fastforce
    have r2: "(s, i) \<in> set edges_in \<Longrightarrow> i < n \<and> s < n" 
      using rng unfolding edges_in_range_def n_def by fastforce
    have nb: "i < n \<Longrightarrow> s < n \<Longrightarrow> s \<in> set (g' ! i) \<longleftrightarrow>
          (s \<in> set (sirs_G st ! i) \<and> (i, s) \<notin> set edges_out \<and> (s, i) \<notin> set edges_out)
          \<or> (i, s) \<in> set edges_in \<or> (s, i) \<in> set edges_in"
      using network_changed_byD[OF ch, of i s] by (simp add: lg)
    show "e \<in> set (SI_edges st') \<longleftrightarrow> e \<in> SI_pairs (sirs_G st') (node_status st')"
      unfolding e f in_SI_pairs in_fold_push_edge_in n_def[symmetric]
      using old r1 r2 nb leaving_ascending[OF asc, of i s]
      by auto
  qed
  then have "SI_consistent st'" by (simp add: SI_consistent_def)
  with e w show ?thesis by blast
qed

section \<open>The SIRS claims\<close>


lemma cache_correctI: "sirs_wf st \<Longrightarrow> SI_consistent st \<Longrightarrow> cache_correct st"
  using scan_SI_pairs[of st] by (simp add: cache_correct_def SI_consistent_def)

lemma path_state_correct: "cache_correct path_state"
  by (simp add: cache_correct_def sirs_wf_def SI_consistent_def path_state_def graph_ok_def
      nodes_with_def SI_pairs_def scan_SI_def)

lemma pair_state_correct: "cache_correct pair_state"
  by (simp add: cache_correct_def sirs_wf_def SI_consistent_def pair_state_def graph_ok_def
      nodes_with_def SI_pairs_def scan_SI_def)

lemma du: "draw_upper 0 = 18446744073709551615"
  by (simp add: draw_upper_def)

lemma draw_upper_nonempty: "0 < n \<Longrightarrow> n < 2 ^ 64 \<Longrightarrow> draw_upper n = n - 1"
proof -
  assume n: "0 < n" "n < 2 ^ 64"
  then obtain m where m: "n = Suc m" by (cases n) auto
  have "n + 2 ^ 64 - 1 = 2 ^ 64 + m" by (simp add: m)
  then have "draw_upper n = (2 ^ 64 + m) mod 2 ^ 64" by (simp only: draw_upper_def)
  also have "\<dots> = m mod 2 ^ 64" by (simp only: mod_add_self1)
  also have "\<dots> = m" using n(2) by (simp add: m)
  finally show ?thesis by (simp add: m)
qed

lemma wf_scan_in_range:
  assumes "graph_ok g (length status)" "\<forall>i \<in> set infs. i < length status"
  shows "scan_in_range g status infs"
  using assms graph_okD[OF assms(1)] graph_ok_length[OF assms(1)]
  unfolding scan_in_range_def by (metis)

lemma update_network_full_correct:
  assumes wf: "sirs_wf st" and g: "graph_ok g (length (node_status st))"
  shows "\<exists>st'. update_network_full g t st = Inr st' \<and> cache_correct st'"
proof -
  have inf: "\<forall>i \<in> set (infected st). i < length (node_status st)"
    using wf_infected[OF wf] by blast
  define st' where "st' = update_observables t
             (st\<lparr> sirs_G := g,
                  mean_degree := compute_mean_degree g (sirs_N st),
                  SI_edges := scan_SI g (node_status st) (infected st) \<rparr>)"
  have e: "update_network_full g t st = Inr st'"
    using wf_scan_in_range[OF g inf] by (simp add: update_network_full_def st'_def)
  have f: "sirs_G st' = g" "node_status st' = node_status st" "infected st' = infected st"
      "recovered st' = recovered st" "SI_edges st' = scan_SI g (node_status st) (infected st)"
    by (simp_all add: st'_def update_observables_def)
  have w: "sirs_wf st'" using wf g unfolding sirs_wf_def f by simp
  have "set (SI_edges st') = SI_pairs (sirs_G st') (node_status st')"
    using scan_SI_pairs[OF w] by (simp add: f)
  then have "SI_consistent st'" by (simp add: SI_consistent_def)
  with w have "cache_correct st'" by (rule cache_correctI)
  with e show ?thesis by blast
qed

lemma distinct_scan_SI:
  assumes "distinct infs" "\<forall>i \<in> set infs. distinct (g ! i)"
  shows "distinct (scan_SI g status infs)"
  using assms
proof (induction infs)
  case Nil
  then show ?case by (simp add: scan_SI_def)
next
  case (Cons a infs)
  have 1: "distinct (map (\<lambda>nb. (a, nb)) (filter (\<lambda>nb. status ! nb = EPI_S) (g ! a)))"
    using Cons.prems(2) by (simp add: distinct_map inj_on_def)
  have 2: "distinct (scan_SI g status infs)" using Cons by simp
  have 3: "\<And>p. p \<in> set (scan_SI g status infs) \<Longrightarrow> fst p \<noteq> a"
  proof -
    fix p assume "p \<in> set (scan_SI g status infs)"
    then have "(fst p, snd p) \<in> set (scan_SI g status infs)" by simp
    then have "fst p \<in> set infs" unfolding set_scan_SI by simp
    then show "fst p \<noteq> a" using Cons.prems(1) by auto
  qed
  have "scan_SI g status (a # infs)
          = map (\<lambda>nb. (a, nb)) (filter (\<lambda>nb. status ! nb = EPI_S) (g ! a)) @ scan_SI g status infs"
    by (simp add: scan_SI_def)
  moreover have "set (map (\<lambda>nb. (a, nb)) (filter (\<lambda>nb. status ! nb = EPI_S) (g ! a)))
                   \<inter> set (scan_SI g status infs) = {}"
    using 3 by fastforce
  ultimately show ?case using 1 2 by (simp only: distinct_append)
qed

lemma adjacency_distinctD: "adjacency_distinct g \<Longrightarrow> i < length g \<Longrightarrow> distinct (g ! i)"
  by (simp add: adjacency_distinct_def)

lemma cache_exactI:
  assumes wf: "sirs_wf st" and c: "SI_consistent st" and a: "adjacency_distinct (sirs_G st)"
    and d: "distinct (SI_edges st)"
  shows "cache_exact st"
proof -
  have cc: "cache_correct st" using cache_correctI[OF wf c] .
  have len: "length (sirs_G st) = length (node_status st)" using graph_ok_length[OF wf_graph[OF wf]] .
  have "\<forall>i \<in> set (infected st). distinct (sirs_G st ! i)"
    using wf_infected[OF wf] adjacency_distinctD[OF a] len by simp
  moreover have "distinct (infected st)" using wf by (simp add: sirs_wf_def)
  ultimately have ds: "distinct (scan_SI (sirs_G st) (node_status st) (infected st))"
    using distinct_scan_SI by blast
  have se: "set (SI_edges st) = set (scan_SI (sirs_G st) (node_status st) (infected st))"
    using cc by (simp add: cache_correct_def)
  have m: "mset (SI_edges st) = mset (scan_SI (sirs_G st) (node_status st) (infected st))"
    using set_eq_iff_mset_eq_distinct[OF d ds] se by simp
  then have "length (SI_edges st) = length (scan_SI (sirs_G st) (node_status st) (infected st))"
    by (rule mset_eq_length)
  with cc a d m show ?thesis by (simp add: cache_exact_def)
qed

lemma cache_exactD:
  assumes "cache_exact st"
  shows "sirs_wf st" "SI_consistent st" "adjacency_distinct (sirs_G st)" "distinct (SI_edges st)"
  using assms by (simp_all add: cache_exact_def cache_correct_def)


lemma SI_entry_status:
  assumes "SI_consistent st" "p \<in> set (SI_edges st)"
  shows "node_status st ! fst p = EPI_I \<and> node_status st ! snd p = EPI_S
         \<and> fst p < length (node_status st) \<and> snd p < length (node_status st)
         \<and> snd p \<in> set (sirs_G st ! fst p)"
proof -
  have "(fst p, snd p) \<in> SI_pairs (sirs_G st) (node_status st)"
    using consistentD[OF assms(1), of p] assms(2) by simp
  then show ?thesis unfolding in_SI_pairs by simp
qed

lemma infection_event_distinct:
  assumes wf: "sirs_wf st" and c: "SI_consistent st" and a: "adjacency_distinct (sirs_G st)"
    and d: "distinct (SI_edges st)" and e: "infection_event r st = Inr st'"
  shows "distinct (SI_edges st') \<and> sirs_G st' = sirs_G st"
proof -
  have r: "r < length (SI_edges st)" using e by (auto simp: infection_event_def split: if_splits)
  define x where "x = snd (SI_edges st ! r)"
  have x: "x < length (node_status st)" "node_status st ! x = EPI_S"
    using SI_member[OF wf c r] by (simp_all add: x_def)
  have nr: "neighbours_in_range st x" using wf_neighbours_in_range[OF wf x(1)] .
  define status where "status = (node_status st)[x := EPI_I]"
  have st': "st' = st\<lparr> infected := infected st @ [x], node_status := status,
                        SI_edges := filter (\<lambda>e. snd e \<noteq> x) (SI_edges st) @ map (\<lambda>nb. (x, nb))
                                      (filter (\<lambda>nb. status ! nb = EPI_S) (sirs_G st ! x)) \<rparr>"
    using e r nr by (simp add: infection_event_def Let_def x_def[symmetric] status_def)
  have xl: "x < length (sirs_G st)" using graph_ok_length[OF wf_graph[OF wf]] x(1) by simp
  have 1: "distinct (filter (\<lambda>e. snd e \<noteq> x) (SI_edges st))" using d by simp
  have 2: "distinct (map (\<lambda>nb. (x, nb)) (filter (\<lambda>nb. status ! nb = EPI_S) (sirs_G st ! x)))"
    using adjacency_distinctD[OF a xl] by (simp add: distinct_map inj_on_def)
  have 3: "set (filter (\<lambda>e. snd e \<noteq> x) (SI_edges st))
             \<inter> set (map (\<lambda>nb. (x, nb)) (filter (\<lambda>nb. status ! nb = EPI_S) (sirs_G st ! x))) = {}"
  proof -
    have "\<And>p. p \<in> set (SI_edges st) \<Longrightarrow> fst p \<noteq> x"
      using SI_entry_status[OF c] x(2) by fastforce
    then show ?thesis by fastforce
  qed
  have "distinct (SI_edges st')" unfolding st' using 1 2 3 by simp
  then show ?thesis by (simp add: st')
qed

lemma recovery_event_distinct:
  assumes d: "distinct (SI_edges st)" and e: "recovery_event r st = Inr st'"
  shows "distinct (SI_edges st') \<and> sirs_G st' = sirs_G st"
  using assms by (auto simp: recovery_event_def Let_def split: if_splits)

lemma susceptible_event_distinct:
  assumes wf: "sirs_wf st" and c: "SI_consistent st" and a: "adjacency_distinct (sirs_G st)"
    and d: "distinct (SI_edges st)" and e: "susceptible_event r st = Inr st'"
  shows "distinct (SI_edges st') \<and> sirs_G st' = sirs_G st"
proof -
  have r: "r < length (recovered st)" using e by (auto simp: susceptible_event_def split: if_splits)
  define x where "x = recovered st ! r"
  have "x \<in> set (recovered st)" using r by (simp add: x_def)
  then have x: "x < length (node_status st)" "node_status st ! x = EPI_R"
    by (simp_all add: wf_recovered[OF wf])
  have nr: "neighbours_in_range st x" using wf_neighbours_in_range[OF wf x(1)] .
  define status where "status = (node_status st)[x := EPI_S]"
  have st': "st' = st\<lparr> recovered := take r (recovered st) @ drop (Suc r) (recovered st),
                        node_status := status,
                        SI_edges := SI_edges st @ map (\<lambda>nb. (nb, x))
                                      (filter (\<lambda>nb. status ! nb = EPI_I) (sirs_G st ! x)) \<rparr>"
    using e r nr by (simp add: susceptible_event_def Let_def x_def[symmetric] status_def)
  have xl: "x < length (sirs_G st)" using graph_ok_length[OF wf_graph[OF wf]] x(1) by simp
  have 2: "distinct (map (\<lambda>nb. (nb, x)) (filter (\<lambda>nb. status ! nb = EPI_I) (sirs_G st ! x)))"
    using adjacency_distinctD[OF a xl] by (simp add: distinct_map inj_on_def)
  have 3: "set (SI_edges st)
             \<inter> set (map (\<lambda>nb. (nb, x)) (filter (\<lambda>nb. status ! nb = EPI_I) (sirs_G st ! x))) = {}"
  proof -
    have "\<And>p. p \<in> set (SI_edges st) \<Longrightarrow> snd p \<noteq> x"
      using SI_entry_status[OF c] x(2) by fastforce
    then show ?thesis by fastforce
  qed
  have "distinct (SI_edges st')" unfolding st' using d 2 3 by simp
  then show ?thesis by (simp add: st')
qed

lemma push_edge_in_cases:
  "push_edge_in status e si = si \<or> push_edge_in status e si = si @ [(fst e, snd e)]
   \<or> push_edge_in status e si = si @ [(snd e, fst e)]"
  by (cases e) (simp add: push_edge_in_def Let_def)

lemma push_edge_in_norm:
  "push_edge_in status e si = si \<or>
   (\<exists>p. push_edge_in status e si = si @ [p] \<and>
        (min (fst p) (snd p), max (fst p) (snd p)) = (min (fst e) (snd e), max (fst e) (snd e)))"
proof -
  have a: "(min (fst (fst e, snd e)) (snd (fst e, snd e)), max (fst (fst e, snd e)) (snd (fst e, snd e)))
           = (min (fst e) (snd e), max (fst e) (snd e))" by simp
  have b: "(min (fst (snd e, fst e)) (snd (snd e, fst e)), max (fst (snd e, fst e)) (snd (snd e, fst e)))
           = (min (fst e) (snd e), max (fst e) (snd e))" by (simp add: min_def max_def)
  from push_edge_in_cases[of status e si] show ?thesis
    using a b by blast
qed

lemma distinct_fold_push:
  assumes "distinct si"
    and "distinct (map (\<lambda>e. (min (fst e) (snd e), max (fst e) (snd e))) es)"
    and "\<forall>e \<in> set es. \<forall>p \<in> set si.
           (min (fst p) (snd p), max (fst p) (snd p)) \<noteq> (min (fst e) (snd e), max (fst e) (snd e))"
  shows "distinct (fold (push_edge_in status) es si)"
  using assms
proof (induction es arbitrary: si)
  case Nil
  then show ?case by simp
next
  case (Cons e es)
  let ?nm = "\<lambda>e :: edge. (min (fst e) (snd e), max (fst e) (snd e))"
  have de: "distinct (map ?nm es)" and ne: "?nm e \<notin> set (map ?nm es)"
    using Cons.prems(2) by simp_all
  from push_edge_in_norm[of status e si]
  show ?case
  proof (elim disjE exE conjE)
    assume eq: "push_edge_in status e si = si"
    have "distinct (fold (push_edge_in status) es si)"
      by (rule Cons.IH[OF Cons.prems(1) de]) (use Cons.prems(3) in simp)
    then show ?thesis by (simp add: eq)
  next
    fix p assume eq: "push_edge_in status e si = si @ [p]" and np: "?nm p = ?nm e"
    have pn: "p \<notin> set si" using Cons.prems(3) np by auto
    have d1: "distinct (si @ [p])" using Cons.prems(1) pn by simp
    have d3: "\<forall>e' \<in> set es. \<forall>q \<in> set (si @ [p]). ?nm q \<noteq> ?nm e'"
    proof (intro ballI)
      fix e' q assume e': "e' \<in> set es" and q: "q \<in> set (si @ [p])"
      show "?nm q \<noteq> ?nm e'"
      proof (cases "q = p")
        case True
        have "?nm e' \<in> set (map ?nm es)" using e' by (rule imageI[of e' "set es" ?nm, unfolded set_map[symmetric]])
        then have "?nm e' \<noteq> ?nm e" using ne by metis
        then show ?thesis using np True by metis
      next
        case False
        then have "q \<in> set si" using q by simp
        then show ?thesis using Cons.prems(3) e' by simp
      qed
    qed
    have "distinct (fold (push_edge_in status) es (si @ [p]))"
      by (rule Cons.IH[OF d1 de d3])
    then show ?thesis by (simp add: eq)
  qed
qed

lemma update_network_distinct:
  assumes wf: "sirs_wf st" and c: "SI_consistent st" and d: "distinct (SI_edges st)"
    and rng: "edges_in_range (length (node_status st)) edges_in"
    and new: "new_edges (sirs_G st) edges_in"
    and e: "update_network g' edges_in edges_out t st = Inr st'"
  shows "distinct (SI_edges st') \<and> sirs_G st' = g'"
proof -
  let ?nm = "\<lambda>e :: edge. (min (fst e) (snd e), max (fst e) (snd e))"
  let ?kept = "filter (\<lambda>e. \<not> leaving edges_out e) (SI_edges st)"
  have f: "sirs_G st' = g'"
      "SI_edges st' = fold (push_edge_in (node_status st)) edges_in ?kept"
    using e rng by (auto simp: update_network_def update_observables_def)
  have g: "graph_ok (sirs_G st) (length (node_status st))" using wf_graph[OF wf] .
  have 3: "\<forall>e \<in> set edges_in. \<forall>p \<in> set ?kept. ?nm p \<noteq> ?nm e"
  proof (intro ballI notI)
    fix e p assume e: "e \<in> set edges_in" and p: "p \<in> set ?kept" and eq: "?nm p = ?nm e"
    have ps: "p \<in> set (SI_edges st)" using p by simp
    note s = SI_entry_status[OF c ps]
    have nn: "snd e \<notin> set (sirs_G st ! fst e)" using new e unfolding new_edges_def by blast
    have "(fst e = fst p \<and> snd e = snd p) \<or> (fst e = snd p \<and> snd e = fst p)"
      using eq by (auto simp: min_def max_def split: if_splits)
    then show False
    proof
      assume "fst e = fst p \<and> snd e = snd p"
      then show False using nn s by simp
    next
      assume r: "fst e = snd p \<and> snd e = fst p"
      have "fst p \<in> set (sirs_G st ! snd p)" using graph_okD[OF g, of "fst p" "snd p"] s by simp
      then show False using nn r by simp
    qed
  qed
  have "distinct (fold (push_edge_in (node_status st)) edges_in ?kept)"
    by (rule distinct_fold_push) (use d new 3 in \<open>simp_all add: new_edges_def\<close>)
  then show ?thesis using f by simp
qed


lemma path_state_exact: "cache_exact path_state"
proof -
  have "adjacency_distinct (sirs_G path_state)"
    by (simp add: adjacency_distinct_def path_state_def)
  moreover have "distinct (SI_edges path_state)" by (simp add: path_state_def)
  ultimately show ?thesis
    using path_state_correct by (simp add: cache_exactI cache_correct_def)
qed

lemma pair_state_exact: "cache_exact pair_state"
proof -
  have "adjacency_distinct (sirs_G pair_state)"
    by (simp add: adjacency_distinct_def pair_state_def)
  moreover have "distinct (SI_edges pair_state)" by (simp add: pair_state_def)
  ultimately show ?thesis
    using pair_state_correct by (simp add: cache_exactI cache_correct_def)
qed

text \<open>
  Claim C1 (as amended).  In a state whose cache is exact (\<open>SI_edges\<close> holds the pairs
  \<open>(i, s)\<close> with \<open>i\<close> infected, \<open>s\<close> susceptible and \<open>s\<close> a neighbour of \<open>i\<close>, each of
  them once, so that it has the entries and the size of the scan over all infected nodes'
  neighbours), each of \<open>infection_event\<close>, \<open>recovery_event\<close> and \<open>susceptible_event\<close>,
  called with an index inside the collection it draws from, returns a state whose cache
  is exact again.  The incremental \<open>update_network\<close> does so too, provided every pair of
  \<open>edges_out\<close> is listed smaller node first, \<open>edges_in\<close> lists each undirected edge once
  and none that the old network has already, and the network handed over is the old one
  with \<open>edges_out\<close> removed and \<open>edges_in\<close> added.
\<close>

theorem SI_edges_maintained:
  assumes "cache_exact st"
  shows "(r < length (SI_edges st) \<longrightarrow>
            (\<exists>st'. infection_event r st = Inr st' \<and> cache_exact st'))
       \<and> (r < length (infected st) \<longrightarrow>
            (\<exists>st'. recovery_event r st = Inr st' \<and> cache_exact st'))
       \<and> (r < length (recovered st) \<longrightarrow>
            (\<exists>st'. susceptible_event r st = Inr st' \<and> cache_exact st'))
       \<and> (edges_in_range (length (node_status st)) edges_in \<and>
          new_edges (sirs_G st) edges_in \<and>
          graph_ok g' (length (node_status st)) \<and> adjacency_distinct g' \<and>
          network_changed_by (sirs_G st) g' edges_in edges_out \<and>
          ascending edges_out \<longrightarrow>
            (\<exists>st'. update_network g' edges_in edges_out t st = Inr st' \<and> cache_exact st'))"
proof -
  note x = cache_exactD[OF assms]
  have wf: "sirs_wf st" and c: "SI_consistent st" and a: "adjacency_distinct (sirs_G st)"
    and d: "distinct (SI_edges st)"
    using x by simp_all
  have 1: "\<exists>st'. infection_event r st = Inr st' \<and> cache_exact st'" if r: "r < length (SI_edges st)"
  proof -
    obtain st' where e: "infection_event r st = Inr st'" and w: "sirs_wf st'" "SI_consistent st'"
      using infection_event_ok[OF wf c r] by blast
    have "distinct (SI_edges st') \<and> sirs_G st' = sirs_G st"
      by (rule infection_event_distinct[OF wf c a d e])
    then have "cache_exact st'" using w a by (simp add: cache_exactI)
    with e show ?thesis by blast
  qed
  have 2: "\<exists>st'. recovery_event r st = Inr st' \<and> cache_exact st'" if r: "r < length (infected st)"
  proof -
    obtain st' where e: "recovery_event r st = Inr st'" and w: "sirs_wf st'" "SI_consistent st'"
      using recovery_event_ok[OF wf c r] by blast
    have "distinct (SI_edges st') \<and> sirs_G st' = sirs_G st"
      by (rule recovery_event_distinct[OF d e])
    then have "cache_exact st'" using w a by (simp add: cache_exactI)
    with e show ?thesis by blast
  qed
  have 3: "\<exists>st'. susceptible_event r st = Inr st' \<and> cache_exact st'" if r: "r < length (recovered st)"
  proof -
    obtain st' where e: "susceptible_event r st = Inr st'" and w: "sirs_wf st'" "SI_consistent st'"
      using susceptible_event_ok[OF wf c r] by blast
    have "distinct (SI_edges st') \<and> sirs_G st' = sirs_G st"
      by (rule susceptible_event_distinct[OF wf c a d e])
    then have "cache_exact st'" using w a by (simp add: cache_exactI)
    with e show ?thesis by blast
  qed
  have 4: "\<exists>st'. update_network g' edges_in edges_out t st = Inr st' \<and> cache_exact st'"
    if rng: "edges_in_range (length (node_status st)) edges_in"
      and new: "new_edges (sirs_G st) edges_in"
      and g: "graph_ok g' (length (node_status st))" and a': "adjacency_distinct g'"
      and ch: "network_changed_by (sirs_G st) g' edges_in edges_out"
      and asc: "ascending edges_out"
  proof -
    obtain st' where e: "update_network g' edges_in edges_out t st = Inr st'"
      and w: "sirs_wf st'" "SI_consistent st'"
      using update_network_ok[OF wf c rng g ch asc] by blast
    have "distinct (SI_edges st') \<and> sirs_G st' = g'"
      by (rule update_network_distinct[OF wf c d rng new e])
    then have "cache_exact st'" using w a' by (simp add: cache_exactI)
    with e show ?thesis by blast
  qed
  show ?thesis using 1 2 3 4 by blast
qed

text \<open>The hypotheses of C1 hold on the path \<open>0 - 1 - 2 - 3\<close>: all four operations apply.\<close>

theorem SI_edges_maintained_witness:
  "cache_exact path_state
   \<and> (\<exists>st'. infection_event 0 path_state = Inr st' \<and> cache_exact st')
   \<and> (\<exists>st'. recovery_event 0 path_state = Inr st' \<and> cache_exact st')
   \<and> (\<exists>st'. susceptible_event 0 path_state = Inr st' \<and> cache_exact st')
   \<and> ascending [(1, 2)] \<and> new_edges (sirs_G path_state) [(0, 2)]
   \<and> (\<exists>st'. update_network [[1, 2], [0], [0, 3], [2]] [(0, 2)] [(1, 2)] 1 path_state = Inr st'
             \<and> cache_exact st' \<and> SI_edges st' = [(0, 1), (0, 2)])"
proof -
  have a: "(0::nat) < length (SI_edges path_state)" "(0::nat) < length (infected path_state)"
      "(0::nat) < length (recovered path_state)"
    by (simp_all add: path_state_def)
  have b: "edges_in_range (length (node_status path_state)) [(0, 2)]"
    by (simp add: edges_in_range_def path_state_def)
  have c: "graph_ok [[1, 2], [0], [0, 3], [2]] (length (node_status path_state))"
    by (simp add: graph_ok_def path_state_def)
  have d: "network_changed_by (sirs_G path_state) [[1, 2], [0], [0, 3], [2]] [(0, 2)] [(1, 2)]"
    by (simp add: network_changed_by_def path_state_def)
  have e: "ascending [(1, 2)]" by (simp add: ascending_def)
  have f: "\<And>st'. update_network [[1, 2], [0], [0, 3], [2]] [(0, 2)] [(1, 2)] 1 path_state = Inr st'
     \<Longrightarrow> SI_edges st' = [(0, 1), (0, 2)]"
    by (auto simp: update_network_def path_state_def edges_in_range_def update_observables_def
        leaving_def push_edge_in_def)
  have g: "new_edges (sirs_G path_state) [(0, 2)]"
    by (simp add: new_edges_def path_state_def)
  have h: "adjacency_distinct [[1, 2], [0], [0, 3], [2]]"
    by (simp add: adjacency_distinct_def)
  show ?thesis
    using SI_edges_maintained[OF path_state_exact, of 0 "[(0,2)]" "[[1, 2], [0], [0, 3], [2]]" "[(1,2)]" 1]
      a b c d e f g h path_state_exact
    by blast
qed

text \<open>
  C1 as stated fails: on the single edge \<open>0 - 1\<close> (0 infected, 1 susceptible) the deletion of
  that edge, listed as \<open>(1, 0)\<close>, leaves the entry \<open>(0, 1)\<close> in \<open>SI_edges\<close> although the
  network has no edge any more and the scan gives the empty list.  On the same state an
  \<open>edges_in\<close> that lists the edge \<open>0 - 1\<close>, which the network has already, enters the pair
  \<open>(0, 1)\<close> a second time: the cache then has two entries where the scan has one.
\<close>

theorem stale_SI_edge_counterexample:
  "cache_exact pair_state
   \<and> graph_ok [[], []] (length (node_status pair_state))
   \<and> network_changed_by (sirs_G pair_state) [[], []] [] [(1, 0)]
   \<and> update_network [[], []] [] [(1, 0)] 1 pair_state
       = Inr (pair_state\<lparr> sirs_G := [[], []], mean_degree := 0, sirs_R0 := [0], sirs_SI := [1],
                          sirs_I := [1], sirs_R := [0], sirs_time := [1] \<rparr>)
   \<and> SI_edges (pair_state\<lparr> sirs_G := [[], []], mean_degree := 0, sirs_R0 := [0], sirs_SI := [1],
                          sirs_I := [1], sirs_R := [0], sirs_time := [1] \<rparr>) = [(0, 1)]
   \<and> scan_SI [[], []] (node_status pair_state) (infected pair_state) = []
   \<and> \<not> cache_correct (pair_state\<lparr> sirs_G := [[], []], mean_degree := 0, sirs_R0 := [0], sirs_SI := [1],
                          sirs_I := [1], sirs_R := [0], sirs_time := [1] \<rparr>)
   \<and> graph_ok [[1], [0]] (length (node_status pair_state))
   \<and> network_changed_by (sirs_G pair_state) [[1], [0]] [(0, 1)] []
   \<and> update_network [[1], [0]] [(0, 1)] [] 1 pair_state
       = Inr (pair_state\<lparr> SI_edges := [(0, 1), (0, 1)], sirs_R0 := [1], sirs_SI := [2],
                          sirs_I := [1], sirs_R := [0], sirs_time := [1] \<rparr>)
   \<and> scan_SI [[1], [0]] (node_status pair_state) (infected pair_state) = [(0, 1)]
   \<and> \<not> cache_exact (pair_state\<lparr> SI_edges := [(0, 1), (0, 1)], sirs_R0 := [1], sirs_SI := [2],
                          sirs_I := [1], sirs_R := [0], sirs_time := [1] \<rparr>)"
proof -
  have "cache_correct pair_state \<and> graph_ok [[], []] (length (node_status pair_state))
   \<and> network_changed_by (sirs_G pair_state) [[], []] [] [(1, 0)]
   \<and> update_network [[], []] [] [(1, 0)] 1 pair_state
       = Inr (pair_state\<lparr> sirs_G := [[], []], mean_degree := 0, sirs_R0 := [0], sirs_SI := [1],
                          sirs_I := [1], sirs_R := [0], sirs_time := [1] \<rparr>)
   \<and> SI_edges (pair_state\<lparr> sirs_G := [[], []], mean_degree := 0, sirs_R0 := [0], sirs_SI := [1],
                          sirs_I := [1], sirs_R := [0], sirs_time := [1] \<rparr>) = [(0, 1)]
   \<and> scan_SI [[], []] (node_status pair_state) (infected pair_state) = []
   \<and> \<not> cache_correct (pair_state\<lparr> sirs_G := [[], []], mean_degree := 0, sirs_R0 := [0], sirs_SI := [1],
                          sirs_I := [1], sirs_R := [0], sirs_time := [1] \<rparr>)"
    by (simp add: cache_correct_def sirs_wf_def SI_consistent_def pair_state_def graph_ok_def
      nodes_with_def SI_pairs_def scan_SI_def network_changed_by_def update_network_def
      edges_in_range_def update_observables_def leaving_def compute_mean_degree_def)
  moreover have "graph_ok [[1], [0]] (length (node_status pair_state))
   \<and> network_changed_by (sirs_G pair_state) [[1], [0]] [(0, 1)] []
   \<and> update_network [[1], [0]] [(0, 1)] [] 1 pair_state
       = Inr (pair_state\<lparr> SI_edges := [(0, 1), (0, 1)], sirs_R0 := [1], sirs_SI := [2],
                          sirs_I := [1], sirs_R := [0], sirs_time := [1] \<rparr>)
   \<and> scan_SI [[1], [0]] (node_status pair_state) (infected pair_state) = [(0, 1)]
   \<and> \<not> cache_exact (pair_state\<lparr> SI_edges := [(0, 1), (0, 1)], sirs_R0 := [1], sirs_SI := [2],
                          sirs_I := [1], sirs_R := [0], sirs_time := [1] \<rparr>)"
    by (simp add: cache_exact_def pair_state_def graph_ok_def
      scan_SI_def network_changed_by_def update_network_def push_edge_in_def
      edges_in_range_def update_observables_def leaving_def compute_mean_degree_def)
  ultimately show ?thesis using pair_state_exact by blast
qed


lemma infection_event_error: "infection_event r st = Inl e \<Longrightarrow> e = Out_of_bounds"
  by (auto simp: infection_event_def Let_def split: if_splits)

lemma recovery_event_error: "recovery_event r st = Inl e \<Longrightarrow> e = Out_of_bounds"
  by (auto simp: recovery_event_def Let_def split: if_splits)

lemma susceptible_event_error: "susceptible_event r st = Inl e \<Longrightarrow> e = Out_of_bounds"
  by (auto simp: susceptible_event_def Let_def split: if_splits)

lemma make_event_thrown: "(\<exists>e. make_event event t r st = Inl e \<and> thrown e) \<longleftrightarrow> 3 \<le> event"
proof (cases "3 \<le> event")
  case True
  then have "make_event event t r st = Inl Length_error" by (simp add: make_event_def)
  with True show ?thesis by simp
next
  case False
  then consider "event = 0" | "event = 1" | "event = 2" by linarith
  then have "\<And>e. make_event event t r st = Inl e \<Longrightarrow> e = Out_of_bounds"
  proof cases
    case 1
    then show "\<And>e. make_event event t r st = Inl e \<Longrightarrow> e = Out_of_bounds"
      using infection_event_error[of r st] by (auto simp: make_event_def split: sum.splits)
  next
    case 2
    then show "\<And>e. make_event event t r st = Inl e \<Longrightarrow> e = Out_of_bounds"
      using recovery_event_error[of r st] by (auto simp: make_event_def split: sum.splits)
  next
    case 3
    then show "\<And>e. make_event event t r st = Inl e \<Longrightarrow> e = Out_of_bounds"
      using susceptible_event_error[of r st] by (auto simp: make_event_def split: sum.splits)
  qed
  then have "\<not> (\<exists>e. make_event event t r st = Inl e \<and> thrown e)" by fastforce
  with False show ?thesis by simp
qed

lemma infection_event_applied:
  assumes wf: "sirs_wf st" and c: "SI_consistent st" and r: "r < length (SI_edges st)"
  shows "\<exists>st'. infection_event r st = Inr st' \<and>
           make_event 0 t r st = Inr (update_observables t st') \<and>
           node_status st' = (node_status st)[snd (SI_edges st ! r) := EPI_I] \<and>
           infected st' = infected st @ [snd (SI_edges st ! r)]"
proof -
  have "snd (SI_edges st ! r) < length (node_status st)" using SI_member[OF wf c r] by simp
  then have "neighbours_in_range st (snd (SI_edges st ! r))" by (rule wf_neighbours_in_range[OF wf])
  then show ?thesis using r by (simp add: infection_event_def make_event_def Let_def)
qed

lemma recovery_event_applied:
  assumes wf: "sirs_wf st" and r: "r < length (infected st)"
  shows "\<exists>st'. recovery_event r st = Inr st' \<and>
           make_event 1 t r st = Inr (update_observables t st') \<and>
           node_status st' = (node_status st)[infected st ! r := EPI_R] \<and>
           infected st' = take r (infected st) @ drop (Suc r) (infected st) \<and>
           recovered st' = recovered st @ [infected st ! r]"
proof -
  have "infected st ! r \<in> set (infected st)" using r by simp
  then have "infected st ! r < length (node_status st)" by (simp add: wf_infected[OF wf])
  then show ?thesis using r by (simp add: recovery_event_def make_event_def Let_def)
qed

lemma susceptible_event_applied:
  assumes wf: "sirs_wf st" and r: "r < length (recovered st)"
  shows "\<exists>st'. susceptible_event r st = Inr st' \<and>
           make_event 2 t r st = Inr (update_observables t st') \<and>
           node_status st' = (node_status st)[recovered st ! r := EPI_S] \<and>
           recovered st' = take r (recovered st) @ drop (Suc r) (recovered st)"
proof -
  have "recovered st ! r \<in> set (recovered st)" using r by simp
  then have "recovered st ! r < length (node_status st)" by (simp add: wf_recovered[OF wf])
  then have "neighbours_in_range st (recovered st ! r)" by (rule wf_neighbours_in_range[OF wf])
  then show ?thesis using r by (simp add: susceptible_event_def make_event_def Let_def)
qed

lemma draw_inside: "0 < n \<Longrightarrow> n < 2 ^ 64 \<Longrightarrow> r \<le> draw_upper n \<Longrightarrow> r < n"
  using draw_upper_nonempty[of n] by arith

text \<open>
  Claim C5 (as amended).  The handlers check nothing before they draw.  For a non-empty
  collection of size \<open>n < 2^64\<close> every index \<open>r \<le> draw_upper n\<close> lies inside it, and in a
  state with a correct cache each of the three handlers is then applied: \<open>infection_event\<close>
  turns the susceptible end of the drawn \<open>SI_edges\<close> entry into an infected node,
  \<open>recovery_event\<close> moves the drawn infected node to the recovered ones and
  \<open>susceptible_event\<close> makes the drawn recovered node susceptible, and \<open>make_event\<close>
  returns that state with the observables appended.  For an empty collection the bound is
  \<open>2^64 - 1\<close> and each handler reads outside the container whatever index was drawn,
  which is no thrown exception; \<open>make_event\<close> throws exactly when the event index is 3
  or more.
\<close>

theorem no_emptiness_check:
  "(0 < n \<and> n < 2 ^ 64 \<and> r \<le> draw_upper n \<longrightarrow> r < n)
   \<and> (cache_correct st \<and> 0 < length (SI_edges st) \<and> length (SI_edges st) < 2 ^ 64 \<and>
        r \<le> draw_upper (length (SI_edges st)) \<longrightarrow>
          (\<exists>st'. infection_event r st = Inr st' \<and>
                 make_event 0 t r st = Inr (update_observables t st') \<and>
                 node_status st' = (node_status st)[snd (SI_edges st ! r) := EPI_I] \<and>
                 infected st' = infected st @ [snd (SI_edges st ! r)]))
   \<and> (cache_correct st \<and> 0 < length (infected st) \<and> length (infected st) < 2 ^ 64 \<and>
        r \<le> draw_upper (length (infected st)) \<longrightarrow>
          (\<exists>st'. recovery_event r st = Inr st' \<and>
                 make_event 1 t r st = Inr (update_observables t st') \<and>
                 node_status st' = (node_status st)[infected st ! r := EPI_R] \<and>
                 infected st' = take r (infected st) @ drop (Suc r) (infected st) \<and>
                 recovered st' = recovered st @ [infected st ! r]))
   \<and> (cache_correct st \<and> 0 < length (recovered st) \<and> length (recovered st) < 2 ^ 64 \<and>
        r \<le> draw_upper (length (recovered st)) \<longrightarrow>
          (\<exists>st'. susceptible_event r st = Inr st' \<and>
                 make_event 2 t r st = Inr (update_observables t st') \<and>
                 node_status st' = (node_status st)[recovered st ! r := EPI_S] \<and>
                 recovered st' = take r (recovered st) @ drop (Suc r) (recovered st)))
   \<and> draw_upper 0 = 2 ^ 64 - 1
   \<and> (SI_edges st = [] \<longrightarrow> infection_event r st = Inl Out_of_bounds
                            \<and> make_event 0 t r st = Inl Out_of_bounds)
   \<and> (infected st = [] \<longrightarrow> recovery_event r st = Inl Out_of_bounds
                            \<and> make_event 1 t r st = Inl Out_of_bounds)
   \<and> (recovered st = [] \<longrightarrow> susceptible_event r st = Inl Out_of_bounds
                            \<and> make_event 2 t r st = Inl Out_of_bounds)
   \<and> \<not> thrown Out_of_bounds
   \<and> ((\<exists>e. make_event event t r st = Inl e \<and> thrown e) \<longleftrightarrow> 3 \<le> event)"
proof (intro conjI impI)
  show "r < n" if "0 < n \<and> n < 2 ^ 64 \<and> r \<le> draw_upper n"
    using that draw_inside by blast
next
  assume h: "cache_correct st \<and> 0 < length (SI_edges st) \<and> length (SI_edges st) < 2 ^ 64 \<and>
        r \<le> draw_upper (length (SI_edges st))"
  then have r: "r < length (SI_edges st)" using draw_inside by blast
  have wf: "sirs_wf st" and c: "SI_consistent st" using h by (simp_all add: cache_correct_def)
  show "\<exists>st'. infection_event r st = Inr st' \<and>
                 make_event 0 t r st = Inr (update_observables t st') \<and>
                 node_status st' = (node_status st)[snd (SI_edges st ! r) := EPI_I] \<and>
                 infected st' = infected st @ [snd (SI_edges st ! r)]"
    by (rule infection_event_applied[OF wf c r])
next
  assume h: "cache_correct st \<and> 0 < length (infected st) \<and> length (infected st) < 2 ^ 64 \<and>
        r \<le> draw_upper (length (infected st))"
  then have r: "r < length (infected st)" using draw_inside by blast
  have wf: "sirs_wf st" using h by (simp add: cache_correct_def)
  show "\<exists>st'. recovery_event r st = Inr st' \<and>
                 make_event 1 t r st = Inr (update_observables t st') \<and>
                 node_status st' = (node_status st)[infected st ! r := EPI_R] \<and>
                 infected st' = take r (infected st) @ drop (Suc r) (infected st) \<and>
                 recovered st' = recovered st @ [infected st ! r]"
    by (rule recovery_event_applied[OF wf r])
next
  assume h: "cache_correct st \<and> 0 < length (recovered st) \<and> length (recovered st) < 2 ^ 64 \<and>
        r \<le> draw_upper (length (recovered st))"
  then have r: "r < length (recovered st)" using draw_inside by blast
  have wf: "sirs_wf st" using h by (simp add: cache_correct_def)
  show "\<exists>st'. susceptible_event r st = Inr st' \<and>
                 make_event 2 t r st = Inr (update_observables t st') \<and>
                 node_status st' = (node_status st)[recovered st ! r := EPI_S] \<and>
                 recovered st' = take r (recovered st) @ drop (Suc r) (recovered st)"
    by (rule susceptible_event_applied[OF wf r])
next
  show "draw_upper 0 = 2 ^ 64 - 1" by (simp add: draw_upper_def)
next
  assume "SI_edges st = []"
  then show "infection_event r st = Inl Out_of_bounds" by (simp add: infection_event_def)
next
  assume "SI_edges st = []"
  then show "make_event 0 t r st = Inl Out_of_bounds" by (simp add: make_event_def infection_event_def)
next
  assume "infected st = []"
  then show "recovery_event r st = Inl Out_of_bounds" by (simp add: recovery_event_def)
next
  assume "infected st = []"
  then show "make_event 1 t r st = Inl Out_of_bounds" by (simp add: make_event_def recovery_event_def)
next
  assume "recovered st = []"
  then show "susceptible_event r st = Inl Out_of_bounds" by (simp add: susceptible_event_def)
next
  assume "recovered st = []"
  then show "make_event 2 t r st = Inl Out_of_bounds" by (simp add: make_event_def susceptible_event_def)
next
  show "\<not> thrown Out_of_bounds" by simp
next
  show "(\<exists>e. make_event event t r st = Inl e \<and> thrown e) \<longleftrightarrow> 3 \<le> event"
    by (rule make_event_thrown)
qed

text \<open>The hypotheses of C5 at concrete states: the three events on the path
  \<open>0 - 1 - 2 - 3\<close>, and a waning event on the single edge, where nobody has recovered.\<close>

theorem no_emptiness_check_witness:
  "(0::nat) < 1 \<and> (1::nat) < 2 ^ 64 \<and> (0::nat) \<le> draw_upper 1
   \<and> cache_correct path_state
   \<and> 0 < length (SI_edges path_state) \<and> length (SI_edges path_state) < 2 ^ 64
   \<and> 0 \<le> draw_upper (length (SI_edges path_state))
   \<and> 0 < length (infected path_state) \<and> length (infected path_state) < 2 ^ 64
   \<and> 0 \<le> draw_upper (length (infected path_state))
   \<and> 0 < length (recovered path_state) \<and> length (recovered path_state) < 2 ^ 64
   \<and> 0 \<le> draw_upper (length (recovered path_state))
   \<and> (\<exists>st'. make_event 0 1 0 path_state = Inr (update_observables 1 st')
            \<and> node_status st' = [EPI_I, EPI_I, EPI_S, EPI_R])
   \<and> (\<exists>st'. make_event 1 1 0 path_state = Inr (update_observables 1 st')
            \<and> node_status st' = [EPI_R, EPI_S, EPI_S, EPI_R])
   \<and> (\<exists>st'. make_event 2 1 0 path_state = Inr (update_observables 1 st')
            \<and> node_status st' = [EPI_I, EPI_S, EPI_S, EPI_S])
   \<and> recovered pair_state = []
   \<and> make_event 2 1 0 pair_state = Inl Out_of_bounds
   \<and> make_event 3 1 0 pair_state = Inl Length_error"
proof -
  have a: "0 < length (SI_edges path_state)" "length (SI_edges path_state) < 2 ^ 64"
     "0 < length (infected path_state)" "length (infected path_state) < 2 ^ 64"
     "0 < length (recovered path_state)" "length (recovered path_state) < 2 ^ 64"
     "recovered pair_state = []"
    by (simp_all add: path_state_def pair_state_def)
  have n: "(node_status path_state)[snd (SI_edges path_state ! 0) := EPI_I] = [EPI_I, EPI_I, EPI_S, EPI_R]"
      "(node_status path_state)[infected path_state ! 0 := EPI_R] = [EPI_R, EPI_S, EPI_S, EPI_R]"
      "(node_status path_state)[recovered path_state ! 0 := EPI_S] = [EPI_I, EPI_S, EPI_S, EPI_S]"
    by (simp_all add: path_state_def)
  have b: "make_event 3 1 0 pair_state = Inl Length_error" by (simp add: make_event_def)
  show ?thesis
    using no_emptiness_check[of 1 0 path_state 1 3] no_emptiness_check[of 1 0 pair_state 1 3]
      a b path_state_correct
    unfolding n
    by auto
qed

text \<open>
  C5 as stated fails: an infection event on an empty \<open>SI_edges\<close> draws from
  \<open>0 .. 2^64 - 1\<close> and reads outside the vector; no exception is thrown.
\<close>

theorem empty_draw_counterexample:
  "SI_edges (pair_state\<lparr>SI_edges := []\<rparr>) = []
   \<and> draw_upper (length (SI_edges (pair_state\<lparr>SI_edges := []\<rparr>))) = 18446744073709551615
   \<and> make_event 0 1 0 (pair_state\<lparr>SI_edges := []\<rparr>) = Inl Out_of_bounds
   \<and> \<not> thrown Out_of_bounds"
  by (simp add: make_event_def infection_event_def draw_upper_def)

lemma leaving_min_max:
  "leaving es e \<longleftrightarrow> (min (fst e) (snd e), max (fst e) (snd e)) \<in> set es"
  by (auto simp: leaving_def Let_def min_def max_def)

lemma leaving_filter_ascending:
  "leaving (filter (\<lambda>e. fst e \<le> snd e) es) e \<longleftrightarrow> leaving es e"
  by (auto simp: leaving_def Let_def)

lemma set_fold_push_mono: "set si \<subseteq> set (fold (push_edge_in status) es si)"
proof
  fix e assume "e \<in> set si"
  then show "e \<in> set (fold (push_edge_in status) es si)"
    using in_fold_push_edge_in[of "fst e" "snd e" status es si] by simp
qed

text \<open>
  Claim C10.  The incremental \<open>update_network\<close> keeps exactly the entries of \<open>SI_edges\<close> whose
  endpoints, smaller node first, do not occur as a pair in \<open>edges_out\<close>, and then appends
  the entries of \<open>edges_in\<close>.  Pairs of \<open>edges_out\<close> with the larger node first are never
  matched: leaving them out gives the same state, so an entry whose edge is deleted that
  way survives and, the edge being gone from the network, the cache is wrong.  When all
  pairs of \<open>edges_out\<close> are ascending and the network is the old one changed by the two
  lists, a correct cache stays correct.
\<close>

theorem update_network_removal:
  assumes "update_network g edges_in edges_out t st = Inr st'"
  shows "SI_edges st' =
           fold (push_edge_in (node_status st)) edges_in
             (filter (\<lambda>e. (min (fst e) (snd e), max (fst e) (snd e)) \<notin> set edges_out) (SI_edges st))
       \<and> update_network g edges_in (filter (\<lambda>e. fst e \<le> snd e) edges_out) t st = Inr st'
       \<and> (\<forall>e \<in> set (SI_edges st).
           (min (fst e) (snd e), max (fst e) (snd e)) \<notin> set edges_out \<longrightarrow>
             e \<in> set (SI_edges st') \<and> (snd e \<notin> set (g ! fst e) \<longrightarrow> \<not> cache_correct st'))
       \<and> (cache_correct st \<and> graph_ok g (length (node_status st)) \<and>
         network_changed_by (sirs_G st) g edges_in edges_out \<and> ascending edges_out
           \<longrightarrow> cache_correct st')"
proof -
  have rng: "edges_in_range (length (node_status st)) edges_in"
    using assms by (auto simp: update_network_def split: if_splits)
  have f: "sirs_G st' = g" "node_status st' = node_status st"
      "SI_edges st' = fold (push_edge_in (node_status st)) edges_in
                                (filter (\<lambda>e. \<not> leaving edges_out e) (SI_edges st))"
    using assms rng by (auto simp: update_network_def update_observables_def)
  have 1: "SI_edges st' =
           fold (push_edge_in (node_status st)) edges_in
             (filter (\<lambda>e. (min (fst e) (snd e), max (fst e) (snd e)) \<notin> set edges_out) (SI_edges st))"
    unfolding f leaving_min_max ..
  have 2: "update_network g edges_in (filter (\<lambda>e. fst e \<le> snd e) edges_out) t st = Inr st'"
    using assms rng by (simp add: update_network_def leaving_filter_ascending)
  have 3: "\<forall>e \<in> set (SI_edges st).
           (min (fst e) (snd e), max (fst e) (snd e)) \<notin> set edges_out \<longrightarrow>
             e \<in> set (SI_edges st') \<and> (snd e \<notin> set (g ! fst e) \<longrightarrow> \<not> cache_correct st')"
  proof (intro ballI impI)
    fix e assume e: "e \<in> set (SI_edges st)" "(min (fst e) (snd e), max (fst e) (snd e)) \<notin> set edges_out"
    have m: "e \<in> set (SI_edges st')"
      unfolding 1 using e set_fold_push_mono by fastforce
    have "snd e \<notin> set (g ! fst e) \<Longrightarrow> \<not> cache_correct st'"
    proof
      assume n: "snd e \<notin> set (g ! fst e)" and c: "cache_correct st'"
      have "(fst e, snd e) \<in> SI_pairs (sirs_G st') (node_status st')"
        using m c by (simp add: cache_correct_def SI_consistent_def)
      then show False using n unfolding in_SI_pairs f by simp
    qed
    with m show "e \<in> set (SI_edges st') \<and> (snd e \<notin> set (g ! fst e) \<longrightarrow> \<not> cache_correct st')"
      by blast
  qed
  have 4: "cache_correct st \<and> graph_ok g (length (node_status st)) \<and>
         network_changed_by (sirs_G st) g edges_in edges_out \<and> ascending edges_out
           \<longrightarrow> cache_correct st'"
  proof (intro impI, elim conjE)
    assume h: "cache_correct st" "graph_ok g (length (node_status st))"
      "network_changed_by (sirs_G st) g edges_in edges_out" "ascending edges_out"
    have "sirs_wf st" "SI_consistent st" using h(1) by (simp_all add: cache_correct_def)
    from update_network_ok[OF this rng h(2,3,4), of t] assms
    show "cache_correct st'" using cache_correctI by auto
  qed
  show ?thesis using 1 2 3 4 by blast
qed

text \<open>C10 at the single edge \<open>0 - 1\<close>: its deletion listed as \<open>(1, 0)\<close> and as \<open>(0, 1)\<close>.\<close>

theorem update_network_removal_witness:
  "update_network [[], []] [] [(1, 0)] 1 pair_state
       = Inr (pair_state\<lparr> sirs_G := [[], []], mean_degree := 0, sirs_R0 := [0], sirs_SI := [1],
                          sirs_I := [1], sirs_R := [0], sirs_time := [1] \<rparr>)
   \<and> (0, 1) \<in> set (SI_edges pair_state) \<and> (0, 1) \<notin> set [(1, 0) :: edge]
   \<and> (1::nat) \<notin> set ([[], []] ! 0)
   \<and> (0, 1) \<in> set (SI_edges (pair_state\<lparr> sirs_G := [[], []], mean_degree := 0, sirs_R0 := [0],
                          sirs_SI := [1], sirs_I := [1], sirs_R := [0], sirs_time := [1] \<rparr>))
   \<and> \<not> cache_correct (pair_state\<lparr> sirs_G := [[], []], mean_degree := 0, sirs_R0 := [0],
                          sirs_SI := [1], sirs_I := [1], sirs_R := [0], sirs_time := [1] \<rparr>)
   \<and> cache_correct pair_state \<and> graph_ok [[], []] (length (node_status pair_state))
   \<and> network_changed_by (sirs_G pair_state) [[], []] [] [(0, 1)] \<and> ascending [(0, 1)]
   \<and> update_network [[], []] [] [(0, 1)] 1 pair_state
       = Inr (pair_state\<lparr> sirs_G := [[], []], mean_degree := 0, SI_edges := [], sirs_R0 := [0],
                          sirs_SI := [0], sirs_I := [1], sirs_R := [0], sirs_time := [1] \<rparr>)
   \<and> cache_correct (pair_state\<lparr> sirs_G := [[], []], mean_degree := 0, SI_edges := [], sirs_R0 := [0],
                          sirs_SI := [0], sirs_I := [1], sirs_R := [0], sirs_time := [1] \<rparr>)"
proof -
  have a: "update_network [[], []] [] [(1, 0)] 1 pair_state
       = Inr (pair_state\<lparr> sirs_G := [[], []], mean_degree := 0, sirs_R0 := [0], sirs_SI := [1],
                          sirs_I := [1], sirs_R := [0], sirs_time := [1] \<rparr>)"
    by (simp add: pair_state_def update_network_def edges_in_range_def update_observables_def
        leaving_def compute_mean_degree_def)
  have b: "(0, 1) \<in> set (SI_edges pair_state)" by (simp add: pair_state_def)
  have c: "update_network [[], []] [] [(0, 1)] 1 pair_state
       = Inr (pair_state\<lparr> sirs_G := [[], []], mean_degree := 0, SI_edges := [], sirs_R0 := [0],
                          sirs_SI := [0], sirs_I := [1], sirs_R := [0], sirs_time := [1] \<rparr>)"
    by (simp add: pair_state_def update_network_def edges_in_range_def update_observables_def
        leaving_def compute_mean_degree_def)
  have d: "graph_ok [[], []] (length (node_status pair_state))"
    "network_changed_by (sirs_G pair_state) [[], []] [] [(0, 1)]" "ascending [(0, 1)]"
    by (simp_all add: pair_state_def graph_ok_def network_changed_by_def ascending_def)
  have e: "(min (fst (0::nat, 1::nat)) (snd (0::nat, 1::nat)), max (fst (0::nat, 1::nat)) (snd (0::nat, 1::nat)))
             \<notin> set [(1, 0) :: edge]"
    by simp
  have n: "snd (0::nat, 1::nat) \<notin> set ([[], []] ! fst (0::nat, 1::nat))" by simp
  from update_network_removal[OF a]
  have "\<forall>e \<in> set (SI_edges pair_state).
           (min (fst e) (snd e), max (fst e) (snd e)) \<notin> set [(1, 0)] \<longrightarrow>
             e \<in> set (SI_edges (pair_state\<lparr> sirs_G := [[], []], mean_degree := 0, sirs_R0 := [0],
                          sirs_SI := [1], sirs_I := [1], sirs_R := [0], sirs_time := [1] \<rparr>))
           \<and> (snd e \<notin> set ([[], []] ! fst e) \<longrightarrow>
               \<not> cache_correct (pair_state\<lparr> sirs_G := [[], []], mean_degree := 0, sirs_R0 := [0],
                          sirs_SI := [1], sirs_I := [1], sirs_R := [0], sirs_time := [1] \<rparr>))"
    by blast
  from bspec[OF this b] e n
  have f: "(0, 1) \<in> set (SI_edges (pair_state\<lparr> sirs_G := [[], []], mean_degree := 0, sirs_R0 := [0],
                          sirs_SI := [1], sirs_I := [1], sirs_R := [0], sirs_time := [1] \<rparr>))"
          "\<not> cache_correct (pair_state\<lparr> sirs_G := [[], []], mean_degree := 0, sirs_R0 := [0],
                          sirs_SI := [1], sirs_I := [1], sirs_R := [0], sirs_time := [1] \<rparr>)"
    by blast+
  from update_network_removal[OF c] d pair_state_correct
  have g: "cache_correct (pair_state\<lparr> sirs_G := [[], []], mean_degree := 0, SI_edges := [], sirs_R0 := [0],
                          sirs_SI := [0], sirs_I := [1], sirs_R := [0], sirs_time := [1] \<rparr>)"
    by blast
  have h: "(0, 1) \<notin> set [(1, 0) :: edge]" "(1::nat) \<notin> set ([[], []] ! 0)" by simp_all
  show ?thesis using a b c d f g h pair_state_correct by blast
qed

section \<open>The Flockwork-P claims\<close>


lemma fold_plus_sum_list: "fold (\<lambda>x acc. acc + x) xs (a::real) = a + sum_list xs"
  by (induction xs arbitrary: a) simp_all

lemma single_rates_global_nth:
  assumes "length rr = length dr" "k < length rr"
  shows "single_rates_global n rr dr ! k = (fst (rr ! k), [snd (rr ! k) * real n, dr ! k * real n])"
  using assms by (simp add: single_rates_global_def Let_def)

lemma total_rate_global_nth:
  assumes "length rr = length dr" "k < length rr"
  shows "total_rate_global n rr dr ! k = (fst (rr ! k), snd (rr ! k) * real n + dr ! k * real n)"
  using assms by (simp add: total_rate_global_def Let_def)

lemma single_rates_for_each_node_nth:
  assumes "length rr = length dr" "k < length rr"
  shows "single_rates_for_each_node rr dr ! k = (fst (rr ! k), snd (rr ! k) @ dr ! k)"
  using assms by (simp add: single_rates_for_each_node_def)

lemma total_rate_for_each_node_nth:
  assumes "length rr = length dr" "k < length rr"
  shows "total_rate_for_each_node rr dr ! k = (fst (rr ! k), sum_list (snd (rr ! k)) + sum_list (dr ! k))"
  using assms by (simp add: total_rate_for_each_node_def Let_def fold_plus_sum_list)

lemma fw_driver_first_call:
  assumes "graph_from_edgelist (replicate n []) E = Inr g" "t < t_run_total"
    and "sched total_rate single_rates t tmax 0 gen = Inl e"
  shows "fw_driver (Suc fuel) sched apply_event gen E n True (t # ts) total_rate single_rates t_run_total tmax
           = Some (Inl e)"
  using assms by (simp add: fw_driver_def fw_step_def)

text \<open>
  Claim C2 (as amended).  In the two drivers with one rate pair for all nodes the tables
  handed to the scheduler hold, for every breakpoint, the supplied reconnection and
  disconnection rate multiplied by \<open>N\<close>, and their sum as total rate.  In the two drivers
  with one rate per node the table holds the supplied rates unchanged, the reconnection
  rates of all nodes followed by the disconnection rates, and their sum as total rate;
  when all nodes have the same rates this total is the total of the other two drivers.
  The tables are the ones of the first scheduler call: a failure of that call is the
  result of the driver.
\<close>

theorem rates_handed_to_scheduler:
  assumes "length reconnection_rate = length disconnection_rate"
      and "length reconnection_rates = length disconnection_rates"
  shows "length (single_rates_global n reconnection_rate disconnection_rate) = length reconnection_rate
       \<and> length (single_rates_for_each_node reconnection_rates disconnection_rates) = length reconnection_rates
       \<and> (\<forall>k < length reconnection_rate.
            single_rates_global n reconnection_rate disconnection_rate ! k
              = (fst (reconnection_rate ! k),
                 [snd (reconnection_rate ! k) * real n, disconnection_rate ! k * real n])
          \<and> total_rate_global n reconnection_rate disconnection_rate ! k
              = (fst (reconnection_rate ! k),
                 snd (reconnection_rate ! k) * real n + disconnection_rate ! k * real n))
       \<and> (\<forall>k < length reconnection_rates.
            single_rates_for_each_node reconnection_rates disconnection_rates ! k
              = (fst (reconnection_rates ! k), snd (reconnection_rates ! k) @ disconnection_rates ! k)
          \<and> total_rate_for_each_node reconnection_rates disconnection_rates ! k
              = (fst (reconnection_rates ! k),
                 sum_list (snd (reconnection_rates ! k)) + sum_list (disconnection_rates ! k)))
       \<and> total_rate_for_each_node [(t, replicate n a)] [replicate n b] = total_rate_global n [(t, a)] [b]
       \<and> (graph_from_edgelist (replicate n []) E = Inr g \<and> t < t_run_total \<longrightarrow>
            (map fst reconnection_rate = t # ts \<and>
             sched (total_rate_global n reconnection_rate disconnection_rate)
                   (single_rates_global n reconnection_rate disconnection_rate)
                   t tmax 0 (seed_engine seed) = Inl e
             \<longrightarrow> flockwork_alpha_beta_varying_rates (Suc fuel) sched rewire seed_engine E n
                   reconnection_rate disconnection_rate t_run_total tmax use_random_rewiring seed
                 = Some (Inl e)
               \<and> flockwork_alpha_beta_varying_rates_with_neighbor_affinity (Suc fuel) sched
                   random_node rewire_affinity seed_engine E n
                   reconnection_rate disconnection_rate affinity t_run_total tmax
                   use_random_rewiring seed
                 = Some (Inl e))
          \<and> (map fst reconnection_rates = t # ts \<and>
             sched (total_rate_for_each_node reconnection_rates disconnection_rates)
                   (single_rates_for_each_node reconnection_rates disconnection_rates)
                   t tmax 0 (seed_engine seed) = Inl e
             \<longrightarrow> flockwork_alpha_beta_varying_rates_for_each_node (Suc fuel) sched rewire_node
                   seed_engine E n
                   reconnection_rates disconnection_rates t_run_total tmax use_random_rewiring seed
                 = Some (Inl e)
               \<and> flockwork_alpha_beta_varying_rates_for_each_node_with_neighbor_affinity (Suc fuel)
                   sched rewire_affinity seed_engine E n
                   reconnection_rates disconnection_rates affinity t_run_total tmax
                   use_random_rewiring seed
                 = Some (Inl e)))"
proof -
  have 1: "length (single_rates_global n reconnection_rate disconnection_rate) = length reconnection_rate"
    using assms(1) by (simp add: single_rates_global_def)
  have 2: "length (single_rates_for_each_node reconnection_rates disconnection_rates) = length reconnection_rates"
    using assms(2) by (simp add: single_rates_for_each_node_def)
  note 3 = single_rates_global_nth[OF assms(1)] total_rate_global_nth[OF assms(1)]
  note 4 = single_rates_for_each_node_nth[OF assms(2)] total_rate_for_each_node_nth[OF assms(2)]
  have 5: "graph_from_edgelist (replicate n []) E = Inr g \<Longrightarrow> t < t_run_total \<Longrightarrow>
          map fst reconnection_rate = t # ts \<Longrightarrow>
             sched (total_rate_global n reconnection_rate disconnection_rate)
                   (single_rates_global n reconnection_rate disconnection_rate)
                   t tmax 0 (seed_engine seed) = Inl e
             \<Longrightarrow> flockwork_alpha_beta_varying_rates (Suc fuel) sched rewire seed_engine E n
                   reconnection_rate disconnection_rate t_run_total tmax use_random_rewiring seed
                 = Some (Inl e)
               \<and> flockwork_alpha_beta_varying_rates_with_neighbor_affinity (Suc fuel) sched
                   random_node rewire_affinity seed_engine E n
                   reconnection_rate disconnection_rate affinity t_run_total tmax
                   use_random_rewiring seed
                 = Some (Inl e)"
    unfolding flockwork_alpha_beta_varying_rates_def
      flockwork_alpha_beta_varying_rates_with_neighbor_affinity_def
    by (simp add: assms(1) fw_driver_first_call)
  have 6: "graph_from_edgelist (replicate n []) E = Inr g \<Longrightarrow> t < t_run_total \<Longrightarrow>
          map fst reconnection_rates = t # ts \<Longrightarrow>
             sched (total_rate_for_each_node reconnection_rates disconnection_rates)
                   (single_rates_for_each_node reconnection_rates disconnection_rates)
                   t tmax 0 (seed_engine seed) = Inl e
             \<Longrightarrow> flockwork_alpha_beta_varying_rates_for_each_node (Suc fuel) sched rewire_node
                   seed_engine E n
                   reconnection_rates disconnection_rates t_run_total tmax use_random_rewiring seed
                 = Some (Inl e)
               \<and> flockwork_alpha_beta_varying_rates_for_each_node_with_neighbor_affinity (Suc fuel)
                   sched rewire_affinity seed_engine E n
                   reconnection_rates disconnection_rates affinity t_run_total tmax
                   use_random_rewiring seed
                 = Some (Inl e)"
    unfolding flockwork_alpha_beta_varying_rates_for_each_node_def
      flockwork_alpha_beta_varying_rates_for_each_node_with_neighbor_affinity_def
    by (simp add: assms(2) fw_driver_first_call)
  have A: "\<forall>k < length reconnection_rate.
            single_rates_global n reconnection_rate disconnection_rate ! k
              = (fst (reconnection_rate ! k),
                 [snd (reconnection_rate ! k) * real n, disconnection_rate ! k * real n])
          \<and> total_rate_global n reconnection_rate disconnection_rate ! k
              = (fst (reconnection_rate ! k),
                 snd (reconnection_rate ! k) * real n + disconnection_rate ! k * real n)"
    using 3 by simp
  have B: "\<forall>k < length reconnection_rates.
            single_rates_for_each_node reconnection_rates disconnection_rates ! k
              = (fst (reconnection_rates ! k), snd (reconnection_rates ! k) @ disconnection_rates ! k)
          \<and> total_rate_for_each_node reconnection_rates disconnection_rates ! k
              = (fst (reconnection_rates ! k),
                 sum_list (snd (reconnection_rates ! k)) + sum_list (disconnection_rates ! k))"
    using 4 by simp
  have 7: "total_rate_for_each_node [(t, replicate n a)] [replicate n b] = total_rate_global n [(t, a)] [b]"
    unfolding total_rate_for_each_node_def total_rate_global_def fold_plus_sum_list
    by (simp add: sum_list_replicate algebra_simps)
  show ?thesis
    apply (intro conjI impI)
          apply (rule 1)
         apply (rule 2)
        apply (rule A)
       apply (rule B)
       apply (rule 7)
      apply (elim conjE, rule conjunct1[OF 5], assumption+)
     apply (elim conjE, rule conjunct2[OF 5], assumption+)
    apply (elim conjE, rule conjunct1[OF 6], assumption+)
   apply (elim conjE, rule conjunct2[OF 6], assumption+)
    done
qed


lemma fw_step_applied:
  assumes "sched total_rate single_rates (fw_t s) tmax (fw_i_t s) (fw_generator s) = Inr (tau, event, i_t, gen)"
    and "fw_t s + tau < t_run_total"
    and "apply_event event (fw_G s) gen = Inr (chg, g, gen')"
  shows "fw_step sched apply_event total_rate single_rates t_run_total tmax s =
           Inr (if chg = ([], [])
                then s\<lparr> fw_t := fw_t s + tau, fw_i_t := i_t, fw_G := g, fw_generator := gen' \<rparr>
                else s\<lparr> fw_t := fw_t s + tau, fw_i_t := i_t, fw_G := g, fw_generator := gen',
                        fw_time := fw_time s @ [fw_t s + tau],
                        fw_edges_out := fw_edges_out s @ [fst chg],
                        fw_edges_in := fw_edges_in s @ [snd chg] \<rparr>)"
proof (cases chg)
  case (Pair a b)
  show ?thesis using assms by (auto simp: fw_step_def Let_def Pair)
qed

text \<open>
  Claim C8.  In each of the four drivers, an event that is applied (the new time is below
  \<open>t_run_total\<close> and the event is one of the driver) ends the iteration without error, with
  the time advanced by \<open>tau\<close>.  When both lists of the rewiring's edge change are empty
  the arrays \<open>time\<close>, \<open>edges_out\<close> and \<open>edges_in\<close> are left as they were; otherwise each
  gets one more entry.
\<close>

theorem empty_change_not_recorded:
  assumes "sched total_rate single_rates (fw_t s) tmax (fw_i_t s) (fw_generator s)
             = Inr (tau, event, i_t, gen)"
    and "fw_t s + tau < t_run_total"
    and "apply_event \<in> {event_global rewire,
                         event_for_each_node n rewire_node,
                         event_global_neighbor_affinity n random_node rewire_affinity affinity,
                         event_for_each_node_neighbor_affinity n rewire_affinity affinity}"
    and "apply_event event (fw_G s) gen = Inr (chg, g, gen')"
  shows "\<exists>s'. fw_step sched apply_event total_rate single_rates t_run_total tmax s = Inr s'
            \<and> fw_t s' = fw_t s + tau \<and> fw_i_t s' = i_t \<and> fw_G s' = g \<and> fw_generator s' = gen'
            \<and> (if chg = ([], [])
               then fw_time s' = fw_time s \<and> fw_edges_out s' = fw_edges_out s
                    \<and> fw_edges_in s' = fw_edges_in s
               else fw_time s' = fw_time s @ [fw_t s + tau]
                    \<and> fw_edges_out s' = fw_edges_out s @ [fst chg]
                    \<and> fw_edges_in s' = fw_edges_in s @ [snd chg])"
  using fw_step_applied[where sched=sched and apply_event=apply_event and s=s
      and total_rate=total_rate and single_rates=single_rates and tmax=tmax, OF assms(1,2,4)]
  by simp

text \<open>C8 at a rewiring that changes nothing and at one that swaps an edge.\<close>

theorem empty_change_not_recorded_witness:
  "half_sched [] [] (fw_t start_state) 1 (fw_i_t start_state) (fw_generator start_state)
     = Inr (1 / 2, 1, 0, ())
   \<and> fw_t start_state + 1 / 2 < 1
   \<and> event_global idle_rewire 1 (fw_G start_state) () = Inr (([], []), [[1], [0], []], ())
   \<and> fw_step half_sched (event_global idle_rewire) [] [] 1 1 start_state
       = Inr (start_state\<lparr> fw_t := 1 / 2 \<rparr>)
   \<and> event_global swap_rewire 1 (fw_G start_state) () = Inr (([(0, 1)], [(0, 2)]), [[1], [0], []], ())
   \<and> fw_step half_sched (event_global swap_rewire) [] [] 1 1 start_state
       = Inr (start_state\<lparr> fw_t := 1 / 2, fw_time := [1 / 2], fw_edges_out := [[(0, 1)]],
                           fw_edges_in := [[(0, 2)]] \<rparr>)"
proof -
  have a: "half_sched [] [] (fw_t start_state) 1 (fw_i_t start_state) (fw_generator start_state)
     = Inr (1 / 2, 1, 0, ())"
    by (simp add: half_sched_def start_state_def)
  have b: "fw_t start_state + 1 / 2 < 1" by (simp add: start_state_def)
  have c: "event_global idle_rewire 1 (fw_G start_state) () = Inr (([], []), [[1], [0], []], ())"
    by (simp add: event_global_def idle_rewire_def start_state_def)
  have d: "event_global swap_rewire 1 (fw_G start_state) () = Inr (([(0, 1)], [(0, 2)]), [[1], [0], []], ())"
    by (simp add: event_global_def swap_rewire_def start_state_def)
  have m: "event_global rw \<in> {event_global rw,
                         event_for_each_node 3 (\<lambda>node. rw),
                         event_global_neighbor_affinity 3 (\<lambda>b gen. (0, gen)) (\<lambda>node g P aff. rw g P) [],
                         event_for_each_node_neighbor_affinity 3 (\<lambda>node g P aff. rw g P) []}"
    for rw :: "graph \<Rightarrow> real \<Rightarrow> unit \<Rightarrow> unit rewired"
    by simp
  obtain s1 where s1: "fw_step half_sched (event_global idle_rewire) [] [] 1 1 start_state = Inr s1"
     "fw_t s1 = 1 / 2" "fw_i_t s1 = 0" "fw_G s1 = [[1], [0], []]" "fw_generator s1 = ()"
     "fw_time s1 = []" "fw_edges_out s1 = []" "fw_edges_in s1 = []"
    using empty_change_not_recorded[where sched=half_sched and s=start_state
        and apply_event="event_global idle_rewire" and total_rate="[]" and single_rates="[]"
        and tmax=1 and t_run_total=1, OF a b m c]
    by (auto simp: start_state_def)
  obtain s2 where s2: "fw_step half_sched (event_global swap_rewire) [] [] 1 1 start_state = Inr s2"
     "fw_t s2 = 1 / 2" "fw_i_t s2 = 0" "fw_G s2 = [[1], [0], []]" "fw_generator s2 = ()"
     "fw_time s2 = [1 / 2]" "fw_edges_out s2 = [[(0, 1)]]" "fw_edges_in s2 = [[(0, 2)]]"
    using empty_change_not_recorded[where sched=half_sched and s=start_state
        and apply_event="event_global swap_rewire" and total_rate="[]" and single_rates="[]"
        and tmax=1 and t_run_total=1, OF a b m d]
    by (auto simp: start_state_def)
  have e1: "s1 = start_state\<lparr> fw_t := 1 / 2 \<rparr>" using s1 by (simp add: start_state_def)
  have e2: "s2 = start_state\<lparr> fw_t := 1 / 2, fw_time := [1 / 2], fw_edges_out := [[(0, 1)]],
                           fw_edges_in := [[(0, 2)]] \<rparr>" using s2 by (simp add: start_state_def)
  show ?thesis using a b c d s1(1) s2(1) e1 e2 by simp
qed


lemma fw_step_times:
  assumes "fw_step sched apply_event total_rate single_rates T tmax s = Inr s'"
    and "\<forall>x \<in> set (fw_time s). x < T"
    and "length (fw_edges_in s) = length (fw_time s)"
    and "length (fw_edges_out s) = length (fw_time s)"
  shows "(\<forall>x \<in> set (fw_time s'). x < T) \<and> length (fw_edges_in s') = length (fw_time s')
         \<and> length (fw_edges_out s') = length (fw_time s')"
  using assms
  by (auto simp: fw_step_def Let_def split: sum.splits prod.splits if_splits)

lemma fw_step_sorted:
  assumes "fw_step sched apply_event total_rate single_rates T tmax s = Inr s'"
    and "positive_delays sched"
    and "sorted_wrt (<) (fw_time s)"
    and "\<forall>x \<in> set (fw_time s). x \<le> fw_t s"
  shows "sorted_wrt (<) (fw_time s') \<and> (\<forall>x \<in> set (fw_time s'). x \<le> fw_t s')"
proof (cases "sched total_rate single_rates (fw_t s) tmax (fw_i_t s) (fw_generator s)")
  case (Inl e)
  then show ?thesis using assms(1) by (simp add: fw_step_def)
next
  case (Inr res)
  obtain tau event i_t gen where res: "res = (tau, event, i_t, gen)" by (cases res) auto
  have tau: "0 < tau" using assms(2) Inr res unfolding positive_delays_def by blast
  have le: "\<And>x. x \<in> set (fw_time s) \<Longrightarrow> x < fw_t s + tau" using assms(4) tau by fastforce
  show ?thesis using assms(1,3) le tau
    by (auto simp: fw_step_def Inr res Let_def sorted_wrt_append less_imp_le
        split: sum.splits prod.splits if_splits)
qed

lemma fw_loop_times:
  assumes "fw_loop k sched apply_event total_rate single_rates T tmax s = Some (Inr s')"
    and "\<forall>x \<in> set (fw_time s). x < T"
    and "length (fw_edges_in s) = length (fw_time s)"
    and "length (fw_edges_out s) = length (fw_time s)"
  shows "(\<forall>x \<in> set (fw_time s'). x < T) \<and> length (fw_edges_in s') = length (fw_time s')
         \<and> length (fw_edges_out s') = length (fw_time s')"
  using assms
proof (induction k arbitrary: s)
  case 0
  then show ?case by (simp split: if_splits)
next
  case (Suc k)
  show ?case
  proof (cases "fw_t s < T")
    case False
    with Suc.prems show ?thesis by simp
  next
    case True
    then obtain s1 where s1: "fw_step sched apply_event total_rate single_rates T tmax s = Inr s1"
      and l: "fw_loop k sched apply_event total_rate single_rates T tmax s1 = Some (Inr s')"
      using Suc.prems(1) by (auto split: sum.splits)
    from fw_step_times[OF s1 Suc.prems(2,3,4)] Suc.IH[OF l] show ?thesis by blast
  qed
qed

lemma fw_loop_sorted:
  assumes "fw_loop k sched apply_event total_rate single_rates T tmax s = Some (Inr s')"
    and "positive_delays sched"
    and "sorted_wrt (<) (fw_time s)"
    and "\<forall>x \<in> set (fw_time s). x \<le> fw_t s"
  shows "sorted_wrt (<) (fw_time s')"
  using assms
proof (induction k arbitrary: s)
  case 0
  then show ?case by (simp split: if_splits)
next
  case (Suc k)
  show ?case
  proof (cases "fw_t s < T")
    case False
    with Suc.prems show ?thesis by simp
  next
    case True
    then obtain s1 where s1: "fw_step sched apply_event total_rate single_rates T tmax s = Inr s1"
      and l: "fw_loop k sched apply_event total_rate single_rates T tmax s1 = Some (Inr s')"
      using Suc.prems(1) by (auto split: sum.splits)
    from fw_step_sorted[OF s1 Suc.prems(2,3,4)] Suc.IH[OF l Suc.prems(2)] show ?thesis by blast
  qed
qed

lemma fw_step_steady:
  assumes "steady sched apply_event d"
  shows "\<exists>s' tau. fw_step sched apply_event total_rate single_rates T tmax s = Inr s'
           \<and> fw_t s' = fw_t s + tau \<and> d \<le> tau"
proof -
  obtain tau event i_t gen where
    sc: "sched total_rate single_rates (fw_t s) tmax (fw_i_t s) (fw_generator s) = Inr (tau, event, i_t, gen)"
    and tau: "d \<le> tau" and ap: "\<forall>g. \<exists>r. apply_event event g gen = Inr r"
    using assms unfolding steady_def by meson
  obtain r where r: "apply_event event (fw_G s) gen = Inr r" using ap by blast
  obtain chg g gen' where rr: "r = (chg, g, gen')" by (cases r) auto
  have "\<exists>s'. fw_step sched apply_event total_rate single_rates T tmax s = Inr s' \<and> fw_t s' = fw_t s + tau"
    by (simp add: fw_step_def sc r rr Let_def)
  with tau show ?thesis by blast
qed

lemma fw_loop_returns:
  assumes "steady sched apply_event d"
    and "T - fw_t s \<le> real k * d"
  shows "\<exists>s'. fw_loop k sched apply_event total_rate single_rates T tmax s = Some (Inr s')"
  using assms(2)
proof (induction k arbitrary: s)
  case 0
  then show ?case by simp
next
  case (Suc k)
  show ?case
  proof (cases "fw_t s < T")
    case False
    then show ?thesis by simp
  next
    case True
    obtain s1 tau where s1: "fw_step sched apply_event total_rate single_rates T tmax s = Inr s1"
      and t1: "fw_t s1 = fw_t s + tau" and tau: "d \<le> tau"
      using fw_step_steady[OF assms(1)] by blast
    have "T - fw_t s1 \<le> real (Suc k) * d - d" using Suc.prems t1 tau by simp
    also have "\<dots> = real k * d" by (simp add: algebra_simps)
    finally obtain s' where "fw_loop k sched apply_event total_rate single_rates T tmax s1 = Some (Inr s')"
      using Suc.IH by blast
    with True s1 show ?thesis by simp
  qed
qed

lemma map_sum_id_Inr: "map_sum id f z = Inr r \<longleftrightarrow> (\<exists>s. z = Inr s \<and> r = f s)"
  by (cases z) auto

lemma fw_driver_ok:
  assumes "fw_driver fuel sched apply_event gen E n sizes_equal breakpoints total_rate single_rates T tmax
             = Some (Inr r)"
  shows "record_ok E n T r \<and> (positive_delays sched \<longrightarrow> sorted_wrt (<) (ec_t r))"
proof -
  from assms obtain g t ts s' where
    l: "fw_loop fuel sched apply_event total_rate single_rates T tmax
          \<lparr> fw_t = t, fw_i_t = 0, fw_G = g, fw_generator = gen,
            fw_time = [], fw_edges_out = [], fw_edges_in = [] \<rparr> = Some (Inr s')"
    and r: "r = fw_result E n T s'"
    by (auto simp: fw_driver_def map_sum_id_Inr split: if_splits sum.splits list.splits)
  have a: "(\<forall>x \<in> set (fw_time s'). x < T) \<and> length (fw_edges_in s') = length (fw_time s')
         \<and> length (fw_edges_out s') = length (fw_time s')"
    using fw_loop_times[OF l] by simp
  have b: "positive_delays sched \<Longrightarrow> sorted_wrt (<) (fw_time s')"
    using fw_loop_sorted[OF l] by simp
  have c: "fw_time s' \<noteq> [] \<Longrightarrow> last (fw_time s') \<le> T"
    using a last_in_set[of "fw_time s'"] by fastforce
  show ?thesis using a b c by (simp add: r fw_result_def record_ok_def)
qed

lemma fw_driver_returns:
  assumes "edges_in_range n E" "steady sched apply_event d" "T - t \<le> real fuel * d"
  shows "\<exists>r. fw_driver fuel sched apply_event gen E n True (t # ts) total_rate single_rates T tmax
             = Some (Inr r)"
proof -
  obtain g where g: "graph_from_edgelist (replicate n []) E = Inr g"
    using assms(1) by (simp add: graph_from_edgelist_def)
  obtain s' where "fw_loop fuel sched apply_event total_rate single_rates T tmax
          \<lparr> fw_t = t, fw_i_t = 0, fw_G = g, fw_generator = gen,
            fw_time = [], fw_edges_out = [], fw_edges_in = [] \<rparr> = Some (Inr s')"
    using fw_loop_returns[OF assms(2), where s="\<lparr> fw_t = t, fw_i_t = 0, fw_G = g, fw_generator = gen,
            fw_time = [], fw_edges_out = [], fw_edges_in = [] \<rparr>" and k=fuel and T=T
            and total_rate=total_rate and single_rates=single_rates and tmax=tmax] assms(3)
    by auto
  then show ?thesis by (simp add: fw_driver_def g)
qed


text \<open>C2 at two nodes, one breakpoint.\<close>

theorem rates_handed_to_scheduler_witness:
  "length [(0 :: real, 1 / 2 :: real)] = length [1 / 4 :: real]
   \<and> length [(0 :: real, [1, 2 :: real])] = length [[3, 4 :: real]]
   \<and> single_rates_global 2 [(0, 1 / 2)] [1 / 4] = [(0, [1, 1 / 2])]
   \<and> total_rate_global 2 [(0, 1 / 2)] [1 / 4] = [(0, 3 / 2)]
   \<and> single_rates_for_each_node [(0, [1, 2])] [[3, 4]] = [(0, [1, 2, 3, 4])]
   \<and> total_rate_for_each_node [(0, [1, 2])] [[3, 4]] = [(0, 10)]
   \<and> total_rate_for_each_node [(0, replicate 2 (1 / 2))] [replicate 2 (1 / 4)]
       = total_rate_global 2 [(0, 1 / 2)] [1 / 4]
   \<and> graph_from_edgelist (replicate 2 []) [(0, 1)] = Inr [[1], [0]]
   \<and> flockwork_alpha_beta_varying_rates (Suc 0) (\<lambda>tr sr t tmax i gen. Inl Domain_error)
        idle_rewire (\<lambda>seed. ()) [(0, 1)] 2 [(0, 1 / 2)] [1 / 4] 1 1 True 0 = Some (Inl Domain_error)
   \<and> flockwork_alpha_beta_varying_rates_for_each_node (Suc 0) (\<lambda>tr sr t tmax i gen. Inl Domain_error)
        (\<lambda>node. idle_rewire) (\<lambda>seed. ()) [(0, 1)] 2 [(0, [1, 2])] [[3, 4]] 1 1 True 0
        = Some (Inl Domain_error)"
proof -
  have a: "length [(0 :: real, 1 / 2 :: real)] = length [1 / 4 :: real]"
    "length [(0 :: real, [1, 2 :: real])] = length [[3, 4 :: real]]" by simp_all
  have g: "graph_from_edgelist (replicate 2 []) [(0, 1)] = Inr [[1], [0]]"
    by (simp add: graph_from_edgelist_def edges_in_range_def insert_edge_def set_insert_def
        eval_nat_numeral)
  have t: "(0::real) < 1" by simp
  have m: "map fst [(0 :: real, 1 / 2 :: real)] = 0 # []" "map fst [(0 :: real, [1, 2 :: real])] = 0 # []"
    by simp_all
  note th = rates_handed_to_scheduler[OF a, where n=2 and E="[(0, 1)]" and g="[[1], [0]]" and t=0
      and t_run_total=1 and ts="[]" and e=Domain_error
      and sched="\<lambda>tr sr t tmax i gen. Inl Domain_error" and seed_engine="\<lambda>seed. ()"
      and rewire=idle_rewire and rewire_node="\<lambda>node. idle_rewire" and tmax=1 and fuel=0
      and use_random_rewiring=True and seed=0 and a="1 / 2" and b="1 / 4"]
  have 1: "single_rates_global 2 [(0, 1 / 2)] [1 / 4] = [(0, [1, 1 / 2])]"
       "total_rate_global 2 [(0, 1 / 2)] [1 / 4] = [(0, 3 / 2)]"
       "single_rates_for_each_node [(0, [1, 2])] [[3, 4]] = [(0, [1, 2, 3, 4])]"
       "total_rate_for_each_node [(0, [1, 2])] [[3, 4]] = [(0, 10)]"
    using th by (simp_all add: list_eq_iff_nth_eq single_rates_global_def total_rate_global_def
        single_rates_for_each_node_def total_rate_for_each_node_def)
  have 2: "total_rate_for_each_node [(0, replicate 2 (1 / 2))] [replicate 2 (1 / 4)]
       = total_rate_global 2 [(0, 1 / 2)] [1 / 4]"
    using th by blast
  show ?thesis using th g t m 1 2 by simp
qed

text \<open>
  C2 as stated fails for the per-node drivers: for two nodes with all rates 1 the channel
  rates handed over are 1, not \<open>1 * N = 2\<close>.
\<close>

theorem per_node_rates_counterexample:
  "single_rates_for_each_node [(0, [1, 1])] [[1, 1]] = [(0, [1, 1, 1, 1])]
   \<and> single_rates_for_each_node [(0, [1, 1])] [[1, 1]]
       \<noteq> [(0, [1 * real 2, 1 * real 2, 1 * real 2, 1 * real 2])]
   \<and> total_rate_for_each_node [(0, [1, 1])] [[1, 1]] = [(0, 4)]"
  by (simp add: single_rates_for_each_node_def total_rate_for_each_node_def)

text \<open>
  Claim C9.  Whenever one of the four drivers returns a record, the record has \<open>t0 = 0\<close>,
  \<open>tmax = t_run_total\<close>, the supplied \<open>N\<close> and initial edge list, one entry of \<open>edges_in\<close>
  and \<open>edges_out\<close> per recorded time, every recorded time below \<open>t_run_total\<close> (so the
  last one is at most \<open>tmax\<close>), and, the delays of the scheduler being positive, strictly
  increasing times.  A driver does return a record when the scheduler never fails, chooses
  events of the driver and has delays of at least \<open>d > 0\<close>, once the number of iterations
  allowed covers \<open>t_run_total\<close>.
\<close>

theorem flockwork_result_record:
  "(flockwork_alpha_beta_varying_rates fuel sched rewire seed_engine
       E n reconnection_rate disconnection_rate T tmax use_random_rewiring seed = Some (Inr r)
      \<longrightarrow> record_ok E n T r \<and> (positive_delays sched \<longrightarrow> sorted_wrt (<) (ec_t r)))
   \<and> (flockwork_alpha_beta_varying_rates_for_each_node fuel sched rewire_node seed_engine
       E n reconnection_rates disconnection_rates T tmax use_random_rewiring seed = Some (Inr r)
      \<longrightarrow> record_ok E n T r \<and> (positive_delays sched \<longrightarrow> sorted_wrt (<) (ec_t r)))
   \<and> (flockwork_alpha_beta_varying_rates_with_neighbor_affinity fuel sched random_node
       rewire_affinity seed_engine
       E n reconnection_rate disconnection_rate affinity T tmax use_random_rewiring seed = Some (Inr r)
      \<longrightarrow> record_ok E n T r \<and> (positive_delays sched \<longrightarrow> sorted_wrt (<) (ec_t r)))
   \<and> (flockwork_alpha_beta_varying_rates_for_each_node_with_neighbor_affinity fuel sched
       rewire_affinity seed_engine
       E n reconnection_rates disconnection_rates affinity T tmax use_random_rewiring seed = Some (Inr r)
      \<longrightarrow> record_ok E n T r \<and> (positive_delays sched \<longrightarrow> sorted_wrt (<) (ec_t r)))
   \<and> (edges_in_range n E \<and> T - t \<le> real fuel * d \<longrightarrow>
       (length reconnection_rate = length disconnection_rate \<and> map fst reconnection_rate = t # ts \<longrightarrow>
          (steady sched (event_global rewire) d \<longrightarrow>
             (\<exists>r'. flockwork_alpha_beta_varying_rates fuel sched rewire seed_engine
                E n reconnection_rate disconnection_rate T tmax use_random_rewiring seed
                = Some (Inr r')))
        \<and> (steady sched (event_global_neighbor_affinity n random_node rewire_affinity affinity) d \<longrightarrow>
             (\<exists>r'. flockwork_alpha_beta_varying_rates_with_neighbor_affinity fuel sched random_node
                rewire_affinity seed_engine
                E n reconnection_rate disconnection_rate affinity T tmax use_random_rewiring seed
                = Some (Inr r'))))
     \<and> (length reconnection_rates = length disconnection_rates \<and> map fst reconnection_rates = t # ts \<longrightarrow>
          (steady sched (event_for_each_node n rewire_node) d \<longrightarrow>
             (\<exists>r'. flockwork_alpha_beta_varying_rates_for_each_node fuel sched rewire_node seed_engine
                E n reconnection_rates disconnection_rates T tmax use_random_rewiring seed
                = Some (Inr r')))
        \<and> (steady sched (event_for_each_node_neighbor_affinity n rewire_affinity affinity) d \<longrightarrow>
             (\<exists>r'. flockwork_alpha_beta_varying_rates_for_each_node_with_neighbor_affinity fuel sched
                rewire_affinity seed_engine
                E n reconnection_rates disconnection_rates affinity T tmax use_random_rewiring seed
                = Some (Inr r')))))"
  unfolding flockwork_alpha_beta_varying_rates_def
    flockwork_alpha_beta_varying_rates_for_each_node_def
    flockwork_alpha_beta_varying_rates_with_neighbor_affinity_def
    flockwork_alpha_beta_varying_rates_for_each_node_with_neighbor_affinity_def
  apply (intro conjI impI)
         apply (erule fw_driver_ok[THEN conjunct1])
        apply (drule fw_driver_ok[THEN conjunct2], blast)
       apply (erule fw_driver_ok[THEN conjunct1])
      apply (drule fw_driver_ok[THEN conjunct2], blast)
     apply (erule fw_driver_ok[THEN conjunct1])
    apply (drule fw_driver_ok[THEN conjunct2], blast)
   apply (erule fw_driver_ok[THEN conjunct1])
  apply (drule fw_driver_ok[THEN conjunct2], blast)
     apply (simp add: fw_driver_returns)
    apply (simp add: fw_driver_returns)
   apply (simp add: fw_driver_returns)
  apply (simp add: fw_driver_returns)
  done


text \<open>C9 at a run of two iterations with delay \<open>1/2\<close> and \<open>t_run_total = 1\<close>.\<close>

theorem flockwork_result_record_witness:
  "positive_delays half_sched
   \<and> steady half_sched (event_global swap_rewire) (1 / 2)
   \<and> edges_in_range 3 [(0, 1)] \<and> (1::real) - 0 \<le> real (Suc (Suc 0)) * (1 / 2)
   \<and> flockwork_alpha_beta_varying_rates (Suc (Suc 0)) half_sched swap_rewire (\<lambda>seed. ())
        [(0, 1)] 3 [(0, 1)] [1] 1 1 True 0
       = Some (Inr \<lparr> ec_t = [1 / 2], ec_tmax = 1, ec_t0 = 0, ec_edges_initial = [(0, 1)],
                     ec_edges_out = [[(0, 1)]], ec_edges_in = [[(0, 2)]], ec_N = 3 \<rparr>)
   \<and> record_ok [(0, 1)] 3 1
         \<lparr> ec_t = [1 / 2], ec_tmax = 1, ec_t0 = 0, ec_edges_initial = [(0, 1)],
           ec_edges_out = [[(0, 1)]], ec_edges_in = [[(0, 2)]], ec_N = 3 \<rparr>
   \<and> sorted_wrt (<) (ec_t \<lparr> ec_t = [1 / 2], ec_tmax = 1, ec_t0 = 0, ec_edges_initial = [(0, 1)],
           ec_edges_out = [[(0, 1)]], ec_edges_in = [[(0, 2)]], ec_N = 3 \<rparr>)
   \<and> (\<exists>r'. flockwork_alpha_beta_varying_rates (Suc (Suc 0)) half_sched swap_rewire (\<lambda>seed. ())
        [(0, 1)] 3 [(0, 1)] [1] 1 1 True 0 = Some (Inr r'))"
proof -
  have p: "positive_delays half_sched" by (simp add: positive_delays_def half_sched_def)
  have s: "steady half_sched (event_global swap_rewire) (1 / 2)"
    unfolding steady_def
  proof (intro conjI allI)
    show "(0::real) < 1 / 2" by simp
    fix total_rate single_rates t tmax i_t and gen :: unit
    show "\<exists>tau event i_t' gen'.
            half_sched total_rate single_rates t tmax i_t gen = Inr (tau, event, i_t', gen') \<and>
            1 / 2 \<le> tau \<and> (\<forall>g. \<exists>r. event_global swap_rewire event g gen' = Inr r)"
      apply (rule exI[of _ "1 / 2"], rule exI[of _ 1], rule exI[of _ i_t], rule exI[of _ gen])
      apply (simp add: half_sched_def event_global_def swap_rewire_def)
      done
  qed
  have e: "edges_in_range 3 [(0, 1)]" "(1::real) - 0 \<le> real (Suc (Suc 0)) * (1 / 2)"
    by (simp_all add: edges_in_range_def)
  have l: "length [(0::real, 1::real)] = length [1::real]" "map fst [(0::real, 1::real)] = 0 # []"
    by simp_all
  have g: "graph_from_edgelist (replicate 3 []) [(0, 1)] = Inr [[1], [0], []]"
    by (simp add: graph_from_edgelist_def edges_in_range_def insert_edge_def set_insert_def
        eval_nat_numeral)
  have st: "fw_step half_sched (event_global swap_rewire) tr sr 1 1
              \<lparr> fw_t = 0, fw_i_t = 0, fw_G = [[1], [0], []], fw_generator = (),
                fw_time = [], fw_edges_out = [], fw_edges_in = [] \<rparr>
            = Inr \<lparr> fw_t = 1 / 2, fw_i_t = 0, fw_G = [[1], [0], []], fw_generator = (),
                fw_time = [1 / 2], fw_edges_out = [[(0, 1)]], fw_edges_in = [[(0, 2)]] \<rparr>" for tr sr
    by (simp add: fw_step_def half_sched_def event_global_def swap_rewire_def)
  have st2: "fw_step half_sched (event_global swap_rewire) tr sr 1 1
              \<lparr> fw_t = 1 / 2, fw_i_t = 0, fw_G = [[1], [0], []], fw_generator = (),
                fw_time = [1 / 2], fw_edges_out = [[(0, 1)]], fw_edges_in = [[(0, 2)]] \<rparr>
            = Inr \<lparr> fw_t = 1, fw_i_t = 0, fw_G = [[1], [0], []], fw_generator = (),
                fw_time = [1 / 2], fw_edges_out = [[(0, 1)]], fw_edges_in = [[(0, 2)]] \<rparr>" for tr sr
    by (simp add: fw_step_def half_sched_def)
  have d: "flockwork_alpha_beta_varying_rates (Suc (Suc 0)) half_sched swap_rewire (\<lambda>seed. ())
        [(0, 1)] 3 [(0, 1)] [1] 1 1 True 0
       = Some (Inr \<lparr> ec_t = [1 / 2], ec_tmax = 1, ec_t0 = 0, ec_edges_initial = [(0, 1)],
                     ec_edges_out = [[(0, 1)]], ec_edges_in = [[(0, 2)]], ec_N = 3 \<rparr>)"
    unfolding flockwork_alpha_beta_varying_rates_def fw_driver_def
    by (simp add: g st st2 fw_result_def del: One_nat_def)
  note th = flockwork_result_record[where fuel="Suc (Suc 0)" and sched=half_sched and rewire=swap_rewire
      and seed_engine="\<lambda>seed. ()" and E="[(0, 1)]" and n=3 and reconnection_rate="[(0, 1)]"
      and disconnection_rate="[1]" and T=1 and tmax=1 and use_random_rewiring=True and seed=0
      and t=0 and ts="[]" and d="1 / 2"
      and rewire_node="\<lambda>node. swap_rewire" and reconnection_rates="[(0, [1, 1, 1])]"
      and disconnection_rates="[[1, 1, 1]]" and random_node="\<lambda>b gen. (0, gen)"
      and rewire_affinity="\<lambda>node g P aff. swap_rewire g P" and affinity="[]"
      and r="\<lparr> ec_t = [1 / 2], ec_tmax = 1, ec_t0 = 0, ec_edges_initial = [(0, 1)],
                     ec_edges_out = [[(0, 1)]], ec_edges_in = [[(0, 2)]], ec_N = 3 \<rparr>"]
  have r1: "record_ok [(0, 1)] 3 1
         \<lparr> ec_t = [1 / 2], ec_tmax = 1, ec_t0 = 0, ec_edges_initial = [(0, 1)],
           ec_edges_out = [[(0, 1)]], ec_edges_in = [[(0, 2)]], ec_N = 3 \<rparr>"
    and r2: "sorted_wrt (<) (ec_t \<lparr> ec_t = [1 / 2], ec_tmax = 1, ec_t0 = 0, ec_edges_initial = [(0, 1)],
           ec_edges_out = [[(0, 1)]], ec_edges_in = [[(0, 2)]], ec_N = 3 \<rparr>)"
    using th[THEN conjunct1] d p by blast+
  have r3: "\<exists>r'. flockwork_alpha_beta_varying_rates (Suc (Suc 0)) half_sched swap_rewire (\<lambda>seed. ())
        [(0, 1)] 3 [(0, 1)] [1] 1 1 True 0 = Some (Inr r')"
    using th[THEN conjunct2, THEN conjunct2, THEN conjunct2, THEN conjunct2] e l s by blast
  show ?thesis using p s e d r1 r2 r3 by blast
qed

section \<open>The trajectory claims\<close>


lemma fold_mark:
  assumes "\<forall>node \<in> set c. node < n" "length grp = n"
  shows "length (fold (\<lambda>node grp. grp[node := True]) c grp) = n \<and>
         (\<forall>i < n. fold (\<lambda>node grp. grp[node := True]) c grp ! i \<longleftrightarrow> (grp ! i \<or> i \<in> set c))"
  using assms
proof (induction c arbitrary: grp)
  case Nil
  then show ?case by simp
next
  case (Cons a c)
  have a: "a < n" and c: "\<forall>node \<in> set c. node < n" using Cons.prems(1) by simp_all
  have l: "length (grp[a := True]) = n" using Cons.prems(2) by simp
  from Cons.IH[OF c l] show ?case using Cons.prems(2) a
    by (auto simp: nth_list_update)
qed

lemma this_group_of_nth:
  assumes "\<forall>node \<in> set c. node < n"
  shows "length (this_group_of n c) = n" and "i < n \<Longrightarrow> this_group_of n c ! i \<longleftrightarrow> i \<in> set c"
  using fold_mark[OF assms, of "replicate n False"] by (simp_all add: this_group_of_def)

lemma this_group_of_eq_iff:
  assumes "\<forall>node \<in> set c1. node < n" "\<forall>node \<in> set c2. node < n"
  shows "this_group_of n c1 = this_group_of n c2 \<longleftrightarrow> set c1 = set c2"
proof
  assume e: "this_group_of n c1 = this_group_of n c2"
  show "set c1 = set c2"
  proof (rule set_eqI)
    fix i
    show "i \<in> set c1 \<longleftrightarrow> i \<in> set c2"
    proof (cases "i < n")
      case True
      then show ?thesis using this_group_of_nth(2)[OF assms(1) True] this_group_of_nth(2)[OF assms(2) True] e
        by simp
    next
      case False
      then show ?thesis using assms by auto
    qed
  qed
next
  assume s: "set c1 = set c2"
  show "this_group_of n c1 = this_group_of n c2"
  proof (rule nth_equalityI)
    show "length (this_group_of n c1) = length (this_group_of n c2)"
      using this_group_of_nth(1)[OF assms(1)] this_group_of_nth(1)[OF assms(2)] by simp
    fix i assume "i < length (this_group_of n c1)"
    then have i: "i < n" using this_group_of_nth(1)[OF assms(1)] by simp
    show "this_group_of n c1 ! i = this_group_of n c2 ! i"
      using this_group_of_nth(2)[OF assms(1) i] this_group_of_nth(2)[OF assms(2) i] s by simp
  qed
qed

lemma get_group_integer_cases:
  assumes "get_group_integer hc n c reg = Inr (label, reg', h)"
  shows "(\<forall>node \<in> set c. node < n) \<and> h = hc (this_group_of n c) \<and>
         ((map_of reg h = Some label \<and> reg' = reg) \<or>
          (map_of reg h = None \<and> label = length reg \<and> reg' = reg @ [(h, label)]))"
  using assms
  by (auto simp: get_group_integer_def Let_def split: if_splits option.splits)

lemma map_of_snoc_keep:
  "map_of reg k = Some v \<Longrightarrow> map_of (reg @ [(h, l)]) k = Some v"
  by (simp add: map_add_Some_iff)

lemma get_group_integer_keeps:
  assumes "get_group_integer hc n c reg = Inr (label, reg', h)" "map_of reg k = Some v"
  shows "map_of reg' k = Some v"
proof -
  from get_group_integer_cases[OF assms(1)]
  have "reg' = reg \<or> reg' = reg @ [(h, label)]" by blast
  then show ?thesis using assms(2) map_of_snoc_keep[of reg k v h label] by auto
qed

lemma get_group_integer_after:
  assumes "get_group_integer hc n c reg = Inr (label, reg', h)"
  shows "map_of reg' h = Some label"
  using get_group_integer_cases[OF assms(1)] by (auto simp: map_add_def)

lemma registry_after_keeps:
  assumes "registry_after hc n cs reg = Inr reg'" "map_of reg k = Some v"
  shows "map_of reg' k = Some v"
  using assms
proof (induction cs arbitrary: reg)
  case Nil
  then show ?case by simp
next
  case (Cons c cs)
  from Cons.prems(1) obtain l r1 h where
    g: "get_group_integer hc n c reg = Inr (l, r1, h)" and r: "registry_after hc n cs r1 = Inr reg'"
    by (auto split: sum.splits)
  from Cons.IH[OF r get_group_integer_keeps[OF g Cons.prems(2)]] show ?case .
qed

lemma get_group_integer_known:
  assumes "\<forall>node \<in> set c. node < n" "map_of reg (hc (this_group_of n c)) = Some label"
  shows "get_group_integer hc n c reg = Inr (label, reg, hc (this_group_of n c))"
  using assms by (simp add: get_group_integer_def Let_def)

lemma same_set_same_label:
  assumes g: "get_group_integer hc n c reg = Inr (label, reg', h)"
    and s: "set c2 = set c" and r: "registry_after hc n cs reg' = Inr reg2"
  shows "get_group_integer hc n c2 reg2 = Inr (label, reg2, h)"
proof -
  have c: "\<forall>node \<in> set c. node < n" and h: "h = hc (this_group_of n c)"
    using get_group_integer_cases[OF g] by simp_all
  have c2: "\<forall>node \<in> set c2. node < n" using c s by simp
  have e: "this_group_of n c2 = this_group_of n c" using this_group_of_eq_iff[OF c2 c] s by simp
  have "map_of reg2 h = Some label"
    using registry_after_keeps[OF r get_group_integer_after[OF g]] .
  then show ?thesis using get_group_integer_known[OF c2, of reg2 hc label] e h by simp
qed

lemma dense_step:
  assumes "dense hc n seen reg" "get_group_integer hc n c reg = Inr (label, reg', h)"
  shows "dense hc n (seen @ [c]) reg'"
proof -
  note cs = get_group_integer_cases[OF assms(2)]
  have c: "\<forall>node \<in> set c. node < n" and h: "h = hc (this_group_of n c)" using cs by simp_all
  have d1: "map snd reg = [0..<length reg]" and d2: "distinct (map fst reg)"
    and d3: "fst ` set reg = (\<lambda>c. hc (this_group_of n c)) ` set seen"
    and d4: "\<forall>c \<in> set seen. \<forall>node \<in> set c. node < n"
    using assms(1) by (simp_all add: dense_def)
  have r4: "\<forall>c' \<in> set (seen @ [c]). \<forall>node \<in> set c'. node < n" using d4 c by simp
  from cs have "(map_of reg h = Some label \<and> reg' = reg) \<or>
          (map_of reg h = None \<and> label = length reg \<and> reg' = reg @ [(h, label)])"
    by (rule conjunct2[THEN conjunct2])
  then show ?thesis
  proof (elim disjE conjE)
    assume 1: "map_of reg h = Some label" "reg' = reg"
    have "(h, label) \<in> set reg" using 1(1) by (rule map_of_SomeD)
    then have "h \<in> fst ` set reg" by force
    then have r3: "fst ` set reg = (\<lambda>c. hc (this_group_of n c)) ` set (seen @ [c])"
      unfolding d3 h by auto
    show ?thesis unfolding dense_def 1(2) by (intro conjI d1 d2 r3 r4)
  next
    assume 2: "map_of reg h = None" "label = length reg" "reg' = reg @ [(h, label)]"
    have n: "h \<notin> fst ` set reg" using 2(1) by (simp add: map_of_eq_None_iff)
    have r1: "map snd reg' = [0..<length reg']" using d1 by (simp add: 2)
    have r2: "distinct (map fst reg')" using d2 n by (simp add: 2)
    have r3: "fst ` set reg' = (\<lambda>c. hc (this_group_of n c)) ` set (seen @ [c])"
      by (simp add: 2 d3 h)
    show ?thesis unfolding dense_def by (intro conjI r1 r2 r3 r4)
  qed
qed

lemma registry_after_dense:
  assumes "registry_after hc n cs reg = Inr reg'" "dense hc n seen reg"
  shows "dense hc n (seen @ cs) reg'"
  using assms
proof (induction cs arbitrary: reg seen)
  case Nil
  then show ?case by simp
next
  case (Cons c cs)
  from Cons.prems(1) obtain l r1 h where
    g: "get_group_integer hc n c reg = Inr (l, r1, h)" and r: "registry_after hc n cs r1 = Inr reg'"
    by (auto split: sum.splits)
  from Cons.IH[OF r dense_step[OF Cons.prems(2) g]] show ?case by simp
qed

lemma registry_after_empty_dense:
  assumes "registry_after hc n seen [] = Inr reg"
  shows "dense hc n seen reg"
  using registry_after_dense[OF assms, of "[]"] by (simp add: dense_def)

lemma unseen_hash_fresh_label:
  assumes g: "get_group_integer hc n c reg = Inr (label, reg', h)"
    and r: "registry_after hc n seen [] = Inr reg"
    and u: "\<forall>c' \<in> set seen. hc (this_group_of n c') \<noteq> hc (this_group_of n c)"
  shows "label = length reg \<and> reg' = reg @ [(h, label)] \<and> snd ` set reg = {0..<label}"
proof -
  note d = registry_after_empty_dense[OF r]
  note cs = get_group_integer_cases[OF g]
  have h: "h = hc (this_group_of n c)" using cs by simp
  have "h \<notin> fst ` set reg"
  proof
    assume "h \<in> fst ` set reg"
    then obtain c' where c': "c' \<in> set seen" "hc (this_group_of n c') = h"
      using d unfolding dense_def by auto
    with u h show False by blast
  qed
  then have "map_of reg h = None" by (simp add: map_of_eq_None_iff)
  with cs have 1: "label = length reg" "reg' = reg @ [(h, label)]" by auto
  have "snd ` set reg = set (map snd reg)" by simp
  also have "\<dots> = {0..<length reg}" using d unfolding dense_def by simp
  finally show ?thesis using 1 by simp
qed

lemma seen_hash_existing_label:
  assumes g: "get_group_integer hc n c reg = Inr (label, reg', h)"
    and r: "registry_after hc n seen [] = Inr reg"
    and s: "c' \<in> set seen" and e: "hc (this_group_of n c') = hc (this_group_of n c)"
  shows "reg' = reg \<and> label < length reg \<and> get_group_integer hc n c' reg = Inr (label, reg, h)"
proof -
  note d = registry_after_empty_dense[OF r]
  have d1: "map snd reg = [0..<length reg]"
    and d3: "fst ` set reg = (\<lambda>c. hc (this_group_of n c)) ` set seen"
    and d4: "\<forall>c \<in> set seen. \<forall>node \<in> set c. node < n"
    using d by (simp_all add: dense_def)
  note cs = get_group_integer_cases[OF g]
  have h: "h = hc (this_group_of n c)" using cs by simp
  have c': "\<forall>node \<in> set c'. node < n" using d4 s by blast
  have "hc (this_group_of n c') \<in> (\<lambda>c. hc (this_group_of n c)) ` set seen"
    using s by (rule imageI)
  then have "h \<in> fst ` set reg" unfolding d3 h e .
  then have n: "map_of reg h \<noteq> None" by (simp add: map_of_eq_None_iff)
  from cs have "(map_of reg h = Some label \<and> reg' = reg) \<or>
          (map_of reg h = None \<and> label = length reg \<and> reg' = reg @ [(h, label)])"
    by (rule conjunct2[THEN conjunct2])
  then have 1: "map_of reg h = Some label" and 2: "reg' = reg" using n by blast+
  have "(h, label) \<in> set reg" using 1 by (rule map_of_SomeD)
  then have "snd (h, label) \<in> snd ` set reg" by (rule imageI)
  then have "label \<in> set (map snd reg)" by simp
  then have 3: "label < length reg" unfolding d1 by simp
  have "map_of reg (hc (this_group_of n c')) = Some label" using 1 unfolding h e .
  then have "get_group_integer hc n c' reg = Inr (label, reg, hc (this_group_of n c'))"
    by (rule get_group_integer_known[OF c'])
  then have 4: "get_group_integer hc n c' reg = Inr (label, reg, h)" unfolding h e .
  show ?thesis by (intro conjI 2 3 4)
qed


text \<open>
  Claim C4.  A call of \<open>get_group_integer\<close> that returns keeps every entry of the registry
  as it is and at most appends one.  Whatever calls follow on the same registry, a call
  for a component with the same members, in whatever order they are listed, returns the
  same label and leaves the registry alone.  When the registry was filled from the empty
  one by calls for the components \<open>seen\<close> and the hash of \<open>c\<close> is the hash of none of them,
  the label of \<open>c\<close> is the number of entries, which is the smallest label not in use, the
  labels in use being \<open>0, 1, ...\<close> up to it.  When the hash of \<open>c\<close> is the hash of one of
  them, the registry stays as it is and \<open>c\<close> gets the label in use that this component has.
\<close>

theorem group_labels_stable:
  assumes "get_group_integer hc n c hash_to_int = Inr (label, hash_to_int', h)"
  shows "(\<forall>k v. map_of hash_to_int k = Some v \<longrightarrow> map_of hash_to_int' k = Some v)
       \<and> (\<exists>new. hash_to_int' = hash_to_int @ new)
       \<and> map_of hash_to_int' h = Some label
       \<and> (set c2 = set c \<and> registry_after hc n cs hash_to_int' = Inr reg2
            \<longrightarrow> get_group_integer hc n c2 reg2 = Inr (label, reg2, h))
       \<and> (registry_after hc n seen [] = Inr hash_to_int \<and>
          (\<forall>c' \<in> set seen. hc (this_group_of n c') \<noteq> hc (this_group_of n c))
            \<longrightarrow> label = length hash_to_int \<and> hash_to_int' = hash_to_int @ [(h, label)] \<and>
                snd ` set hash_to_int = {0..<label})
       \<and> (registry_after hc n seen [] = Inr hash_to_int \<and>
          c' \<in> set seen \<and> hc (this_group_of n c') = hc (this_group_of n c)
            \<longrightarrow> hash_to_int' = hash_to_int \<and> label < length hash_to_int \<and>
                get_group_integer hc n c' hash_to_int = Inr (label, hash_to_int, h))"
proof -
  have 1: "\<forall>k v. map_of hash_to_int k = Some v \<longrightarrow> map_of hash_to_int' k = Some v"
    using get_group_integer_keeps[OF assms] by blast
  have 2: "\<exists>new. hash_to_int' = hash_to_int @ new"
    using get_group_integer_cases[OF assms] by auto
  note 3 = get_group_integer_after[OF assms]
  have 4: "set c2 = set c \<and> registry_after hc n cs hash_to_int' = Inr reg2
            \<longrightarrow> get_group_integer hc n c2 reg2 = Inr (label, reg2, h)"
    using same_set_same_label[OF assms] by blast
  have 5: "registry_after hc n seen [] = Inr hash_to_int \<and>
          (\<forall>c' \<in> set seen. hc (this_group_of n c') \<noteq> hc (this_group_of n c))
            \<longrightarrow> label = length hash_to_int \<and> hash_to_int' = hash_to_int @ [(h, label)] \<and>
                snd ` set hash_to_int = {0..<label}"
    using unseen_hash_fresh_label[OF assms] by blast
  have 6: "registry_after hc n seen [] = Inr hash_to_int \<and>
          c' \<in> set seen \<and> hc (this_group_of n c') = hc (this_group_of n c)
            \<longrightarrow> hash_to_int' = hash_to_int \<and> label < length hash_to_int \<and>
                get_group_integer hc n c' hash_to_int = Inr (label, hash_to_int, h)"
    using seen_hash_existing_label[OF assms] by blast
  show ?thesis by (intro conjI 1 2 3 4 5 6)
qed

lemma binary_hash_inj:
  "length xs = length ys \<Longrightarrow> binary_hash xs = binary_hash ys \<Longrightarrow> xs = ys"
proof (induction xs ys rule: list_induct2)
  case Nil
  then show ?case by simp
next
  case (Cons x xs y ys)
  have e: "(if x then 1 else 0) + 2 * binary_hash xs = (if y then 1 else 0) + 2 * binary_hash ys"
    using Cons.prems by simp
  have "x = y"
  proof (rule ccontr)
    assume "x \<noteq> y"
    then have "odd ((if x then 1 else 0) + 2 * binary_hash xs) \<noteq> odd ((if y then 1 else 0) + 2 * binary_hash ys)"
      by auto
    with e show False by simp
  qed
  with e have "binary_hash xs = binary_hash ys" by simp
  with Cons.IH \<open>x = y\<close> show ?case by simp
qed

text \<open>C4 for three nodes, the membership vector read as a binary number: \<open>{0,1}\<close> after
  \<open>{2}\<close>, asked again as \<open>{1,0}\<close> after \<open>{2}\<close> and \<open>{0,1,2}\<close>, and as \<open>{1,0}\<close> right after
  \<open>{2}\<close> and \<open>{0,1}\<close>.\<close>

theorem group_labels_stable_witness:
  "get_group_integer binary_hash 3 [0, 1] [(4, 0)] = Inr (1, [(4, 0), (3, 1)], 3)
   \<and> map_of [(4::nat, 0)] 4 = Some (0::nat) \<and> map_of [(4::nat, 0), (3, 1)] 4 = Some (0::nat)
   \<and> set [1, 0] = set [0, 1 :: nat]
   \<and> registry_after binary_hash 3 [[2], [0, 1, 2]] [(4, 0), (3, 1)] = Inr [(4, 0), (3, 1), (7, 2)]
   \<and> get_group_integer binary_hash 3 [1, 0] [(4, 0), (3, 1), (7, 2)]
       = Inr (1, [(4, 0), (3, 1), (7, 2)], 3)
   \<and> registry_after binary_hash 3 [[2]] [] = Inr [(4, 0)]
   \<and> binary_hash (this_group_of 3 [2]) = 4 \<and> binary_hash (this_group_of 3 [0, 1]) = 3
   \<and> (1::nat) = length [(4::nat, 0::nat)]
   \<and> snd ` set [(4::nat, 0::nat)] = {0..<1}
   \<and> get_group_integer binary_hash 3 [1, 0] [(4, 0), (3, 1)] = Inr (1, [(4, 0), (3, 1)], 3)
   \<and> registry_after binary_hash 3 [[2], [0, 1]] [] = Inr [(4, 0), (3, 1)]
   \<and> [0, 1] \<in> set [[2], [0, 1 :: nat]]
   \<and> binary_hash (this_group_of 3 [0, 1]) = binary_hash (this_group_of 3 [1, 0])
   \<and> (1::nat) < length [(4::nat, 0::nat), (3, 1)]
   \<and> get_group_integer binary_hash 3 [0, 1] [(4, 0), (3, 1)] = Inr (1, [(4, 0), (3, 1)], 3)"
proof -
  have g: "get_group_integer binary_hash 3 [0, 1] [(4, 0)] = Inr (1, [(4, 0), (3, 1)], 3)"
    by (simp add: get_group_integer_def this_group_of_def eval_nat_numeral)
  have s: "set [1, 0] = set [0, 1 :: nat]" by auto
  have r: "registry_after binary_hash 3 [[2], [0, 1, 2]] [(4, 0), (3, 1)] = Inr [(4, 0), (3, 1), (7, 2)]"
    by (simp add: get_group_integer_def this_group_of_def eval_nat_numeral)
  have r0: "registry_after binary_hash 3 [[2]] [] = Inr [(4, 0)]"
    by (simp add: get_group_integer_def this_group_of_def eval_nat_numeral)
  have v: "binary_hash (this_group_of 3 [2]) = 4" "binary_hash (this_group_of 3 [0, 1]) = 3"
    by (simp_all add: this_group_of_def eval_nat_numeral)
  have u: "\<forall>c' \<in> set [[2]]. binary_hash (this_group_of 3 c') \<noteq> binary_hash (this_group_of 3 [0, 1])"
    by (simp add: v v[unfolded One_nat_def])
  note th = group_labels_stable[OF g, where ?c2.0="[1, 0]" and cs="[[2], [0, 1, 2]]"
      and ?reg2.0="[(4, 0), (3, 1), (7, 2)]" and seen="[[2]]"]
  have 1: "map_of [(4::nat, 0)] 4 = Some (0::nat)" by simp
  have 2: "map_of [(4::nat, 0), (3, 1)] 4 = Some (0::nat)" using th 1 by blast
  have 3: "get_group_integer binary_hash 3 [1, 0] [(4, 0), (3, 1), (7, 2)]
       = Inr (1, [(4, 0), (3, 1), (7, 2)], 3)"
    using th s r by blast
  have 4: "(1::nat) = length [(4::nat, 0::nat)] \<and> snd ` set [(4::nat, 0::nat)] = {0..<1}"
    using th r0 u by blast
  have g2: "get_group_integer binary_hash 3 [1, 0] [(4, 0), (3, 1)] = Inr (1, [(4, 0), (3, 1)], 3)"
    by (simp add: get_group_integer_def this_group_of_def eval_nat_numeral)
  have r2: "registry_after binary_hash 3 [[2], [0, 1]] [] = Inr [(4, 0), (3, 1)]"
    by (simp add: get_group_integer_def this_group_of_def eval_nat_numeral)
  have m: "[0, 1] \<in> set [[2], [0, 1 :: nat]]" by simp
  have e: "binary_hash (this_group_of 3 [0, 1]) = binary_hash (this_group_of 3 [1, 0])"
    by (simp add: this_group_of_def eval_nat_numeral)
  note th2 = group_labels_stable[OF g2, where seen="[[2], [0, 1]]" and c'="[0, 1]"]
  have 5: "(1::nat) < length [(4::nat, 0::nat), (3, 1)]
     \<and> get_group_integer binary_hash 3 [0, 1] [(4, 0), (3, 1)] = Inr (1, [(4, 0), (3, 1)], 3)"
    using th2 r2 m e by blast
  show ?thesis by (intro conjI g 1 2 s r 3 r0 v 4[THEN conjunct1] 4[THEN conjunct2] g2 r2 m e
      5[THEN conjunct1] 5[THEN conjunct2])
qed


subsection \<open>Interval mode on a stream with events\<close>

text \<open>For a stream with at least one event, times increasing from \<open>t0\<close> to at most
  \<open>tmax\<close>, and a focal node whose component has more than one member in every network
  of the run, the intervals recorded over all labels tile \<open>[t0, tmax]\<close>.\<close>


lemma set_set_insert: "set (set_insert x xs) = insert x (set xs)"
  by (auto simp: set_insert_def set_insort_key)

lemma set_set_erase: "set (set_erase x xs) \<subseteq> set xs"
  by (auto simp: set_erase_def)

lemma in_rangeD: "in_range g n \<Longrightarrow> i < n \<Longrightarrow> j \<in> set (g ! i) \<Longrightarrow> j < n"
  by (simp add: in_range_def)

lemma in_range_length: "in_range g n \<Longrightarrow> length g = n"
  by (simp add: in_range_def)

lemma in_range_update:
  assumes "in_range g n" "set xs \<subseteq> insert j (set (g ! i))" "j < n"
  shows "in_range (g[i := xs]) n"
  unfolding in_range_def
proof (intro conjI ballI)
  show "length (g[i := xs]) = n" using assms(1) by (simp add: in_range_def)
  fix a b assume a: "a \<in> set [0..<n]" and b: "b \<in> set (g[i := xs] ! a)"
  have an: "a < n" using a by simp
  show "b < n"
  proof (cases "a = i")
    case True
    then have "b \<in> set xs" using b an assms(1) by (simp add: in_range_def)
    then have "b = j \<or> b \<in> set (g ! i)" using assms(2) by auto
    then show ?thesis using assms(3) in_rangeD[OF assms(1), of i b] True an by auto
  next
    case False
    then have "b \<in> set (g ! a)" using b by simp
    then show ?thesis using in_rangeD[OF assms(1) an] by simp
  qed
qed

lemma in_range_insert_edge:
  assumes "in_range g n" "fst e < n" "snd e < n"
  shows "in_range (insert_edge e g) n"
proof -
  have 1: "in_range (g[fst e := set_insert (snd e) (g ! fst e)]) n"
    by (rule in_range_update[OF assms(1) _ assms(3)]) (simp add: set_set_insert)
  show ?thesis unfolding insert_edge_def Let_def
    by (rule in_range_update[OF 1 _ assms(2)]) (simp add: set_set_insert)
qed

lemma in_range_erase_edge:
  assumes "in_range g n" "fst e < n" "snd e < n"
  shows "in_range (erase_edge e g) n"
proof -
  have 1: "in_range (g[fst e := set_erase (snd e) (g ! fst e)]) n"
    by (rule in_range_update[OF assms(1) _ assms(3)]) (use set_set_erase in auto)
  show ?thesis unfolding erase_edge_def Let_def
    by (rule in_range_update[OF 1 _ assms(2)]) (use set_set_erase in auto)
qed

lemma sorted_edge_range: "fst e < n \<Longrightarrow> snd e < n \<Longrightarrow> fst (sorted_edge e) < n \<and> snd (sorted_edge e) < n"
  by (simp add: sorted_edge_def)

lemma in_range_fold_insert:
  assumes "in_range g n" "edges_in_range n es"
  shows "in_range (fold (\<lambda>e. insert_edge (sorted_edge e)) es g) n"
  using assms
proof (induction es arbitrary: g)
  case Nil
  then show ?case by simp
next
  case (Cons e es)
  have e: "fst e < n" "snd e < n" and es: "edges_in_range n es"
    using Cons.prems(2) by (simp_all add: edges_in_range_def)
  have "in_range (insert_edge (sorted_edge e) g) n"
    using in_range_insert_edge[OF Cons.prems(1)] sorted_edge_range[OF e] by blast
  from Cons.IH[OF this es] show ?case by simp
qed

lemma in_range_fold_erase:
  assumes "in_range g n" "edges_in_range n es"
  shows "in_range (fold (\<lambda>e. erase_edge (sorted_edge e)) es g) n"
  using assms
proof (induction es arbitrary: g)
  case Nil
  then show ?case by simp
next
  case (Cons e es)
  have e: "fst e < n" "snd e < n" and es: "edges_in_range n es"
    using Cons.prems(2) by (simp_all add: edges_in_range_def)
  have "in_range (erase_edge (sorted_edge e) g) n"
    using in_range_erase_edge[OF Cons.prems(1)] sorted_edge_range[OF e] by blast
  from Cons.IH[OF this es] show ?case by simp
qed

lemma in_range_fold_insert_plain:
  assumes "in_range g n" "edges_in_range n es"
  shows "in_range (fold insert_edge es g) n"
  using assms
proof (induction es arbitrary: g)
  case Nil
  then show ?case by simp
next
  case (Cons e es)
  have e: "fst e < n" "snd e < n" and es: "edges_in_range n es"
    using Cons.prems(2) by (simp_all add: edges_in_range_def)
  from Cons.IH[OF in_range_insert_edge[OF Cons.prems(1) e] es] show ?case by simp
qed

lemma in_range_graph_from_edgelist:
  assumes "graph_from_edgelist (replicate n []) es = Inr g"
  shows "in_range g n"
proof -
  have r: "edges_in_range n es" and g: "g = fold insert_edge es (replicate n [])"
    using assms by (auto simp: graph_from_edgelist_def split: if_splits)
  have "in_range (replicate n []) n" by (simp add: in_range_def)
  from in_range_fold_insert_plain[OF this r] show ?thesis by (simp add: g)
qed

lemma fold_set_insert_range:
  assumes "\<forall>x \<in> set acc. x < n" "\<forall>x \<in> set xs. x < n"
  shows "\<forall>x \<in> set (fold set_insert xs acc). x < n"
  using assms
proof (induction xs arbitrary: acc)
  case Nil
  then show ?case by simp
next
  case (Cons a xs)
  have "\<forall>x \<in> set (set_insert a acc). x < n" using Cons.prems by (simp add: set_set_insert)
  moreover have "\<forall>x \<in> set xs. x < n" using Cons.prems(2) by simp
  ultimately show ?case using Cons.IH by simp
qed

lemma neighbours_fold_range:
  assumes "in_range g n" "\<forall>x \<in> set c. x < n" "\<forall>x \<in> set acc. x < n"
  shows "\<forall>x \<in> set (fold (\<lambda>v acc. fold set_insert (g ! v) acc) c acc). x < n"
  using assms(2,3)
proof (induction c arbitrary: acc)
  case Nil
  then show ?case by simp
next
  case (Cons v c)
  have v: "v < n" and c: "\<forall>x \<in> set c. x < n" using Cons.prems(1) by simp_all
  have "\<forall>x \<in> set (g ! v). x < n" using in_rangeD[OF assms(1) v] by blast
  from fold_set_insert_range[OF Cons.prems(2) this]
  have "\<forall>x \<in> set (fold set_insert (g ! v) acc). x < n" .
  from Cons.IH[OF c this] show ?case by simp
qed

lemma neighbours_step_range:
  assumes "in_range g n" "\<forall>x \<in> set c. x < n"
  shows "\<forall>x \<in> set (neighbours_step g c). x < n"
  unfolding neighbours_step_def using neighbours_fold_range[OF assms assms(2)] .

lemma funpow_neighbours_range:
  assumes "in_range g n" "\<forall>x \<in> set c. x < n"
  shows "\<forall>x \<in> set ((neighbours_step g ^^ k) c). x < n"
  using assms(2)
proof (induction k)
  case 0
  then show ?case by simp
next
  case (Suc k)
  then show ?case using neighbours_step_range[OF assms(1)] by simp
qed

lemma component_in_range:
  assumes "in_range g n" "node < n"
  shows "\<forall>x \<in> set (get_component_of_node node g). x < n"
  unfolding get_component_of_node_def
  using funpow_neighbours_range[OF assms(1), of "[node]"] assms(2) by simp



lemma chain_snoc: "chain a b ch \<Longrightarrow> b \<le> c \<Longrightarrow> chain a c (ch @ [(b, c)])"
  by (induction ch arbitrary: a) auto

lemma all_pairs_update:
  assumes "i < length tr"
  shows "mset (all_pairs (tr[i := (tr ! i)\<lparr> time_pairs := time_pairs (tr ! i) @ [p] \<rparr>]))
           = mset (all_pairs tr) + {#p#}"
proof -
  have u: "tr[i := (tr ! i)\<lparr> time_pairs := time_pairs (tr ! i) @ [p] \<rparr>]
        = take i tr @ (tr ! i)\<lparr> time_pairs := time_pairs (tr ! i) @ [p] \<rparr> # drop (Suc i) tr"
    using assms by (rule upd_conv_take_nth_drop)
  have t: "tr = take i tr @ tr ! i # drop (Suc i) tr" using assms by (rule id_take_nth_drop)
  have "mset (all_pairs (take i tr @ (tr ! i)\<lparr> time_pairs := time_pairs (tr ! i) @ [p] \<rparr> # drop (Suc i) tr))
        = mset (all_pairs (take i tr @ tr ! i # drop (Suc i) tr)) + {#p#}"
    by (simp add: all_pairs_def)
  then show ?thesis using u t by simp
qed

lemma push_time_pair_ok:
  assumes l: "labels_ok reg tr" and c: "\<forall>x \<in> set cmpt. x < n"
  shows "\<exists>reg' tr'. push_time_pair hc n cmpt p (reg, tr) = Inr (reg', tr') \<and> labels_ok reg' tr'
           \<and> mset (all_pairs tr') = mset (all_pairs tr) + {#p#}"
proof -
  define h where "h = hc (this_group_of n cmpt)"
  have len: "length reg = length tr" and lab: "\<And>k v. (k, v) \<in> set reg \<Longrightarrow> v < length tr"
    using l unfolding labels_ok_def by auto
  show ?thesis
  proof (cases "map_of reg h")
    case (Some v)
    have g: "get_group_integer hc n cmpt reg = Inr (v, reg, h)"
      using get_group_integer_known[OF c, of reg hc v] Some by (simp add: h_def)
    have v: "v < length tr" using lab[OF map_of_SomeD[OF Some]] .
    define tr' where "tr' = tr[v := (tr ! v)\<lparr> time_pairs := time_pairs (tr ! v) @ [p] \<rparr>]"
    have e: "push_time_pair hc n cmpt p (reg, tr) = Inr (reg, tr')"
      using v by (simp add: push_time_pair_def g tr'_def)
    have "labels_ok reg tr'" using l by (simp add: labels_ok_def tr'_def)
    moreover have "mset (all_pairs tr') = mset (all_pairs tr) + {#p#}"
      unfolding tr'_def by (rule all_pairs_update[OF v])
    ultimately show ?thesis using e by blast
  next
    case None
    define entry where "entry = \<lparr> ste_hash = h, ste_size = length cmpt, time_pairs = [] \<rparr>"
    define v where "v = length reg"
    have g: "get_group_integer hc n cmpt reg = Inr (v, reg @ [(h, v)], h)"
      using c None by (simp add: get_group_integer_def Let_def h_def v_def)
    define tr1 where "tr1 = tr @ [entry]"
    define tr' where "tr' = tr1[v := (tr1 ! v)\<lparr> time_pairs := time_pairs (tr1 ! v) @ [p] \<rparr>]"
    have v: "v < length tr1" "v = length tr" by (simp_all add: tr1_def v_def len)
    have e: "push_time_pair hc n cmpt p (reg, tr) = Inr (reg @ [(h, v)], tr')"
      using v by (simp add: push_time_pair_def g tr'_def tr1_def entry_def)
    have "labels_ok (reg @ [(h, v)]) tr'"
      using l v by (auto simp: labels_ok_def tr'_def tr1_def)
    moreover have "mset (all_pairs tr') = mset (all_pairs tr) + {#p#}"
    proof -
      have "mset (all_pairs tr') = mset (all_pairs tr1) + {#p#}"
        unfolding tr'_def by (rule all_pairs_update[OF v(1)])
      also have "mset (all_pairs tr1) = mset (all_pairs tr)"
        by (simp add: tr1_def all_pairs_def entry_def)
      finally show ?thesis .
    qed
    ultimately show ?thesis using e by blast
  qed
qed


lemma networks_after_Cons:
  "networks_after g (ein # eins) (eout # eouts) =
     fold (\<lambda>e. insert_edge (sorted_edge e)) ein (fold (\<lambda>e. erase_edge (sorted_edge e)) eout g)
     # networks_after
         (fold (\<lambda>e. insert_edge (sorted_edge e)) ein (fold (\<lambda>e. erase_edge (sorted_edge e)) eout g))
         eins eouts"
  by (simp add: Let_def)

lemma trajectory_loop_tiles:
  assumes "length eins = length time" "length eouts = length time" "time \<noteq> []"
    and "sorted_wrt (<) time" "last_time_active st \<le> hd time" "t0 < hd time" "last time \<le> tmax"
    and "\<forall>es \<in> set eins. edges_in_range n es" "\<forall>es \<in> set eouts. edges_in_range n es"
    and "in_range (ts_G st) n" "node < n"
    and "labels_ok (ts_hash_to_int st) (social_trajectory st)"
    and "1 < length (old_component st)" "\<forall>x \<in> set (old_component st). x < n"
    and "\<forall>g \<in> set (networks_after (ts_G st) eins eouts). 1 < length (get_component_of_node node g)"
    and "\<exists>ch. mset ch = mset (all_pairs (social_trajectory st)) \<and> chain t0 (last_time_active st) ch"
  shows "\<exists>st'. trajectory_loop hc n node t0 tmax eins time eouts st = Inr st'
               \<and> tiles t0 tmax (social_trajectory st')"
  using assms
proof (induction time arbitrary: eins eouts st)
  case Nil
  then show ?case by simp
next
  case (Cons t ts)
  obtain ein eins' where eins: "eins = ein # eins'" using Cons.prems(1) by (cases eins) auto
  obtain eout eouts' where eouts: "eouts = eout # eouts'" using Cons.prems(2) by (cases eouts) auto
  have len: "length eins' = length ts" "length eouts' = length ts"
    using Cons.prems(1,2) by (simp_all add: eins eouts)
  have rin: "edges_in_range n ein" "\<forall>es \<in> set eins'. edges_in_range n es"
    and rout: "edges_in_range n eout" "\<forall>es \<in> set eouts'. edges_in_range n es"
    using Cons.prems(8,9) by (simp_all add: eins eouts)
  define g where "g = fold (\<lambda>e. insert_edge (sorted_edge e)) ein
                       (fold (\<lambda>e. erase_edge (sorted_edge e)) eout (ts_G st))"
  define new where "new = get_component_of_node node g"
  have gr: "in_range g n"
    unfolding g_def by (rule in_range_fold_insert[OF in_range_fold_erase[OF Cons.prems(10) rout(1)] rin(1)])
  have na: "networks_after (ts_G st) eins eouts = g # networks_after g eins' eouts'"
    unfolding eins eouts g_def by (rule networks_after_Cons)
  have new1: "1 < length new" using Cons.prems(15) unfolding na new_def by simp
  have nar: "\<forall>g' \<in> set (networks_after g eins' eouts'). 1 < length (get_component_of_node node g')"
    using Cons.prems(15) unfolding na by simp
  have newr: "\<forall>x \<in> set new. x < n" unfolding new_def by (rule component_in_range[OF gr Cons.prems(11)])
  have lt: "last_time_active st \<le> t" "t0 < t" using Cons.prems(5,6) by simp_all
  define la1 where "la1 = (if old_component st \<noteq> new then t else last_time_active st)"
  have la1: "la1 \<le> t" using lt(1) by (simp add: la1_def)
  obtain ch where ch: "mset ch = mset (all_pairs (social_trajectory st))"
     "chain t0 (last_time_active st) ch" using Cons.prems(16) by blast
  have A: "\<exists>reg1 tr1.
       (if 1 < length (old_component st) \<and> old_component st \<noteq> new \<and> t0 < t
        then push_time_pair hc n (old_component st) (last_time_active st, t)
               (ts_hash_to_int st, social_trajectory st)
        else Inr (ts_hash_to_int st, social_trajectory st)) = Inr (reg1, tr1)
       \<and> labels_ok reg1 tr1 \<and> (\<exists>ch1. mset ch1 = mset (all_pairs tr1) \<and> chain t0 la1 ch1)"
  proof (cases "old_component st \<noteq> new")
    case True
    obtain reg1 tr1 where p: "push_time_pair hc n (old_component st) (last_time_active st, t)
               (ts_hash_to_int st, social_trajectory st) = Inr (reg1, tr1)"
       "labels_ok reg1 tr1"
       "mset (all_pairs tr1) = mset (all_pairs (social_trajectory st)) + {#(last_time_active st, t)#}"
      using push_time_pair_ok[OF Cons.prems(12,14)] by blast
    have "mset (ch @ [(last_time_active st, t)]) = mset (all_pairs tr1)" using ch(1) p(3) by simp
    moreover have "chain t0 la1 (ch @ [(last_time_active st, t)])"
      using chain_snoc[OF ch(2) lt(1)] True by (simp add: la1_def)
    ultimately have "\<exists>ch1. mset ch1 = mset (all_pairs tr1) \<and> chain t0 la1 ch1" by blast
    moreover have "(if 1 < length (old_component st) \<and> old_component st \<noteq> new \<and> t0 < t
        then push_time_pair hc n (old_component st) (last_time_active st, t)
               (ts_hash_to_int st, social_trajectory st)
        else Inr (ts_hash_to_int st, social_trajectory st)) = Inr (reg1, tr1)"
      using p(1) True Cons.prems(13) lt(2) by simp
    ultimately show ?thesis using p(2) by blast
  next
    case False
    then show ?thesis using ch Cons.prems(12) by (auto simp: la1_def)
  qed
  then obtain reg1 tr1 ch1 where A1:
       "(if 1 < length (old_component st) \<and> old_component st \<noteq> new \<and> t0 < t
        then push_time_pair hc n (old_component st) (last_time_active st, t)
               (ts_hash_to_int st, social_trajectory st)
        else Inr (ts_hash_to_int st, social_trajectory st)) = Inr (reg1, tr1)"
     and l1: "labels_ok reg1 tr1" and c1: "mset ch1 = mset (all_pairs tr1)" "chain t0 la1 ch1"
    by blast
  have unfold: "trajectory_loop hc n node t0 tmax eins (t # ts) eouts st =
      (case (if ts = [] \<and> 1 < length new
             then map_sum id (\<lambda>rs'. (rs', tmax)) (push_time_pair hc n new (la1, tmax) (reg1, tr1))
             else Inr ((reg1, tr1), la1)) of
         Inl e \<Rightarrow> Inl e
       | Inr (rs', la') \<Rightarrow>
           trajectory_loop hc n node t0 tmax eins' ts eouts'
             \<lparr> ts_G = g, last_time_active = la', old_component = new,
               ts_hash_to_int = fst rs', social_trajectory = snd rs' \<rparr>)"
    unfolding eins eouts trajectory_loop.simps(1) Let_def g_def[symmetric] new_def[symmetric]
      la1_def[symmetric] A1
    using rin(1) rout(1) by simp
  show ?case
  proof (cases "ts = []")
    case True
    have tm: "la1 \<le> tmax" using la1 Cons.prems(7) True by simp
    obtain reg2 tr2 where p: "push_time_pair hc n new (la1, tmax) (reg1, tr1) = Inr (reg2, tr2)"
       "mset (all_pairs tr2) = mset (all_pairs tr1) + {#(la1, tmax)#}"
      using push_time_pair_ok[OF l1 newr] by blast
    have e: "eins' = []" "eouts' = []" using len True by simp_all
    have "trajectory_loop hc n node t0 tmax eins (t # ts) eouts st =
            Inr \<lparr> ts_G = g, last_time_active = tmax, old_component = new,
                  ts_hash_to_int = reg2, social_trajectory = tr2 \<rparr>"
      unfolding unfold using True new1 by (simp add: p(1) e)
    moreover have "tiles t0 tmax tr2"
      unfolding tiles_def
    proof (intro exI conjI)
      show "mset (ch1 @ [(la1, tmax)]) = mset (all_pairs tr2)" using c1(1) p(2) by simp
      show "chain t0 tmax (ch1 @ [(la1, tmax)])" by (rule chain_snoc[OF c1(2) tm])
    qed
    ultimately show ?thesis by simp
  next
    case False
    define st1 where "st1 = \<lparr> ts_G = g, last_time_active = la1, old_component = new,
               ts_hash_to_int = reg1, social_trajectory = tr1 \<rparr>"
    have u: "trajectory_loop hc n node t0 tmax eins (t # ts) eouts st =
             trajectory_loop hc n node t0 tmax eins' ts eouts' st1"
      unfolding unfold st1_def using False by simp
    have s: "sorted_wrt (<) ts" and h: "t < hd ts"
      using Cons.prems(4) False by (cases ts; simp)+
    have "\<exists>st'. trajectory_loop hc n node t0 tmax eins' ts eouts' st1 = Inr st'
               \<and> tiles t0 tmax (social_trajectory st')"
    proof (rule Cons.IH[OF len False s])
      show "last_time_active st1 \<le> hd ts" using la1 h by (simp add: st1_def)
      show "t0 < hd ts" using lt(2) h by simp
      show "last ts \<le> tmax" using Cons.prems(7) False by simp
      show "\<forall>es \<in> set eins'. edges_in_range n es" by (rule rin(2))
      show "\<forall>es \<in> set eouts'. edges_in_range n es" by (rule rout(2))
      show "in_range (ts_G st1) n" using gr by (simp add: st1_def)
      show "node < n" by (rule Cons.prems(11))
      show "labels_ok (ts_hash_to_int st1) (social_trajectory st1)" using l1 by (simp add: st1_def)
      show "1 < length (old_component st1)" using new1 by (simp add: st1_def)
      show "\<forall>x \<in> set (old_component st1). x < n" using newr by (simp add: st1_def)
      show "\<forall>g \<in> set (networks_after (ts_G st1) eins' eouts'). 1 < length (get_component_of_node node g)"
        using nar by (simp add: st1_def)
      show "\<exists>ch. mset ch = mset (all_pairs (social_trajectory st1)) \<and> chain t0 (last_time_active st1) ch"
        using c1 by (auto simp: st1_def)
    qed
    then show ?thesis using u by simp
  qed
qed


lemma interval_mode_tiles:
  assumes "length (ec_edges_in ec) = length (ec_t ec)" "length (ec_edges_out ec) = length (ec_t ec)"
    and "ec_t ec \<noteq> []" "sorted_wrt (<) (ec_t0 ec # ec_t ec)" "last (ec_t ec) \<le> ec_tmax ec"
    and "\<forall>es \<in> set (ec_edges_in ec). edges_in_range (ec_N ec) es"
    and "\<forall>es \<in> set (ec_edges_out ec). edges_in_range (ec_N ec) es"
    and "node < ec_N ec"
    and "graph_from_edgelist (replicate (ec_N ec) []) (ec_edges_initial ec) = Inr g"
    and "\<forall>g' \<in> set (g # networks_after g (ec_edges_in ec) (ec_edges_out ec)).
           1 < length (get_component_of_node node g')"
  shows "\<exists>tr. social_trajectory_from_edge_changes hc ec node = Inr tr
              \<and> tiles (ec_t0 ec) (ec_tmax ec) tr"
proof -
  define st where "st = \<lparr> ts_G = g, last_time_active = ec_t0 ec,
                        old_component = get_component_of_node node g,
                        ts_hash_to_int = [], social_trajectory = [] \<rparr>"
  have gr: "in_range g (ec_N ec)" by (rule in_range_graph_from_edgelist[OF assms(9)])
  have hd: "ec_t0 ec < hd (ec_t ec)" using assms(3,4) by (cases "ec_t ec") simp_all
  have so: "sorted_wrt (<) (ec_t ec)" using assms(4) by simp
  have "\<exists>st'. trajectory_loop hc (ec_N ec) node (ec_t0 ec) (ec_tmax ec)
                 (ec_edges_in ec) (ec_t ec) (ec_edges_out ec) st = Inr st'
               \<and> tiles (ec_t0 ec) (ec_tmax ec) (social_trajectory st')"
  proof (rule trajectory_loop_tiles[OF assms(1,2,3) so _ hd assms(5,6,7) _ assms(8)])
    show "last_time_active st \<le> hd (ec_t ec)" using hd by (simp add: st_def)
    show "in_range (ts_G st) (ec_N ec)" using gr by (simp add: st_def)
    show "labels_ok (ts_hash_to_int st) (social_trajectory st)" by (simp add: st_def labels_ok_def)
    show "1 < length (old_component st)" using assms(10) by (simp add: st_def)
    show "\<forall>x \<in> set (old_component st). x < ec_N ec"
      using component_in_range[OF gr assms(8)] by (simp add: st_def)
    show "\<forall>g \<in> set (networks_after (ts_G st) (ec_edges_in ec) (ec_edges_out ec)).
            1 < length (get_component_of_node node g)"
      using assms(10) by (simp add: st_def)
    show "\<exists>ch. mset ch = mset (all_pairs (social_trajectory st)) \<and> chain (ec_t0 ec) (last_time_active st) ch"
      by (rule exI[of _ "[]"]) (simp add: st_def all_pairs_def)
  qed
  then obtain st' where l: "trajectory_loop hc (ec_N ec) node (ec_t0 ec) (ec_tmax ec)
                 (ec_edges_in ec) (ec_t ec) (ec_edges_out ec) st = Inr st'"
     and t: "tiles (ec_t0 ec) (ec_tmax ec) (social_trajectory st')" by blast
  have "social_trajectory_from_edge_changes hc ec node = Inr (social_trajectory st')"
    unfolding social_trajectory_from_edge_changes_def Let_def
    using assms(3,5,8,9) l by (simp add: st_def)
  with t show ?thesis by blast
qed


subsection \<open>The functions on concrete streams\<close>


lemma g1: "graph_from_edgelist (replicate 4 []) [(0, 1), (2, 3)] = Inr [[1], [0], [3], [2]]"
  by (simp add: graph_from_edgelist_def edges_in_range_def insert_edge_def set_insert_def
        eval_nat_numeral)

lemma c1: "get_component_of_node 0 [[1], [0], [3], [2]] = [0, 1]"
  by (simp add: get_component_of_node_def neighbours_step_def set_insert_def eval_nat_numeral)

lemma c2: "get_component_of_node 0 [[1], [0, 2], [1, 3], [2]] = [0, 1, 2, 3]"
  by (simp add: get_component_of_node_def neighbours_step_def set_insert_def eval_nat_numeral)

lemma static_stream_no_interval:
  "social_trajectory_from_edge_changes hc static_stream 0 = Inl Out_of_bounds"
  by (simp add: social_trajectory_from_edge_changes_def static_stream_def
      graph_from_edgelist_def edges_in_range_def)


lemma g2: "graph_from_edgelist (replicate 3 []) [(0, 1)] = Inr [[1], [0], []]"
  by (simp add: graph_from_edgelist_def edges_in_range_def insert_edge_def set_insert_def
        eval_nat_numeral)

lemma g3: "graph_from_edgelist (replicate 2 []) [(0, 1)] = Inr [[1], [0]]"
  by (simp add: graph_from_edgelist_def edges_in_range_def insert_edge_def set_insert_def
        eval_nat_numeral)

lemma c3: "get_component_of_node 0 [[1], [0]] = [0, 1]"
  by (simp add: get_component_of_node_def neighbours_step_def set_insert_def eval_nat_numeral)

lemma c4: "get_component_of_node 0 [[1], [0], []] = [0, 1]"
  by (simp add: get_component_of_node_def neighbours_step_def set_insert_def eval_nat_numeral)

lemma c5: "get_component_of_node 0 [[1], [0, 2], [1]] = [0, 1, 2]"
  by (simp add: get_component_of_node_def neighbours_step_def set_insert_def eval_nat_numeral)

lemma h1: "get_group_integer binary_hash 4 [0, 1] [] = Inr (0, [(3, 0)], 3)"
  by (simp add: get_group_integer_def this_group_of_def eval_nat_numeral)

lemma h2: "get_group_integer binary_hash 4 [0, 1, 2, 3] [(3, 0)] = Inr (1, [(3, 0), (15, 1)], 15)"
  by (simp add: get_group_integer_def this_group_of_def eval_nat_numeral)

lemma h3: "get_group_integer binary_hash 3 [0, 1] [] = Inr (0, [(3, 0)], 3)"
  by (simp add: get_group_integer_def this_group_of_def eval_nat_numeral)

lemma h4: "get_group_integer binary_hash 3 [0, 1, 2] [(3, 0)] = Inr (1, [(3, 0), (7, 1)], 7)"
  by (simp add: get_group_integer_def this_group_of_def eval_nat_numeral)

lemma merging_example:
  "social_trajectory_from_edge_changes binary_hash merging_stream 0
     = Inr [\<lparr> ste_hash = 3, ste_size = 2, time_pairs = [(0, 1)] \<rparr>,
            \<lparr> ste_hash = 15, ste_size = 4, time_pairs = [(1, 2)] \<rparr>]"
proof -
  have u: "fold (\<lambda>e. insert_edge (sorted_edge e)) [(1, 2)] [[1], [0], [3], [2]]
             = [[1], [0, 2], [1, 3], [2]]"
    by (simp add: insert_edge_def sorted_edge_def set_insert_def)
  show ?thesis
    unfolding social_trajectory_from_edge_changes_def merging_stream_def
    by (simp add: g1[unfolded One_nat_def] c1[unfolded One_nat_def] c2[unfolded One_nat_def]
        h1[unfolded One_nat_def] h2[unfolded One_nat_def] push_time_pair_def edges_in_range_def
        Let_def insert_edge_def sorted_edge_def set_insert_def)
qed


lemma advance_bins_no_insert:
  "advance_bins k False label bin tr = Inr (bin + k, tr)"
  by (induction k arbitrary: bin) simp_all

lemma growing_bin_number: "nat \<lfloor>((5 / 2 :: real) - 0) / (4 - 0) * real (4::nat)\<rfloor> = 2"
proof -
  have "((5 / 2 :: real) - 0) / (4 - 0) * real (4::nat) = 5 / 2" by simp
  moreover have "\<lfloor>5 / 2 :: real\<rfloor> = 2" by (simp add: floor_eq_iff)
  ultimately show ?thesis by simp
qed

lemma growing_step:
  "binned_step binary_hash 3 0 0 4 1 4 (5 / 2) (apply_edge_changes 3 ([(1, 2)], []))
     \<lparr> bs_G = [[1], [0], []], current_trajectory_bin = 0, old_bin_number = 0,
       current_group_integer = 0, bs_hash_to_int = [(3, 0)],
       trajectory = [[0], [], [], []] \<rparr>
   = Inr \<lparr> bs_G = [[1], [0, 2], [1]], current_trajectory_bin = 2, old_bin_number = 2,
           current_group_integer = 1, bs_hash_to_int = [(3, 0), (7, 1)],
           trajectory = [[0], [], [1], []] \<rparr>"
proof -
  have a: "apply_edge_changes 3 ([(1, 2)], []) [[1], [0], []] = Inr [[1], [0, 2], [1]]"
    by (simp add: apply_edge_changes_def edges_in_range_def insert_edge_def set_insert_def)
  have d: "\<not> (0 + real (2::nat) * 1 > (5 / 2 :: real))" by simp
  have i: "insert_into_bin 2 1 [[0], [], [], []] = Inr [[0], [], [1], []]"
    by (simp add: insert_into_bin_def set_insert_def)
  show ?thesis
    unfolding binned_step_def growing_bin_number
    by (simp add: Let_def advance_bins_no_insert a[unfolded One_nat_def] c5[unfolded One_nat_def]
        h4[unfolded One_nat_def] insert_into_bin_def set_insert_def)
qed

lemma growing_binned:
  "binned_social_trajectory_from_edge_changes binary_hash growing_stream 0 0 4
     = Inr [[0], [], [1], []]"
proof -
  have b: "bin_configuration 0 4 0 4 = Inr (1, 4)" by (simp add: bin_configuration_def)
  have i: "insert_into_bin 0 0 (replicate 4 []) = Inr [[0], [], [], []]"
    by (simp add: insert_into_bin_def set_insert_def eval_nat_numeral)
  show ?thesis
    unfolding binned_social_trajectory_from_edge_changes_def growing_stream_def
    by (simp add: Let_def g2[unfolded One_nat_def] b c4[unfolded One_nat_def]
        h3[unfolded One_nat_def] i growing_step[unfolded One_nat_def])
qed


lemma replicate_small:
  "replicate 2 x = [x, x]" "replicate 3 x = [x, x, x]" "replicate 4 x = [x, x, x, x]"
  by (simp_all add: eval_nat_numeral)

lemma growing_snapshots_binned:
  "binned_social_trajectory_from_edge_lists binary_hash growing_snapshots 0 0 4
     = Inr [[0], [], [1], []]"
proof -
  have b: "bin_configuration 0 4 0 4 = Inr (1, 4)" by (simp add: bin_configuration_def)
  have n1: "graph_from_edgelist (replicate 3 []) [(0, 1)] = Inr [[1], [0], []]" by (rule g2)
  have n2: "graph_from_edgelist [[1], [0], []] [(0, 1), (1, 2)] = Inr [[1], [0, 2], [1]]"
    by (simp add: graph_from_edgelist_def edges_in_range_def insert_edge_def set_insert_def
        eval_nat_numeral)
  have s1: "binned_step binary_hash 3 0 0 4 1 4 0 (\<lambda>g. graph_from_edgelist g [(0, 1)])
     \<lparr> bs_G = replicate 3 [], current_trajectory_bin = 0, old_bin_number = 0,
       current_group_integer = 1, bs_hash_to_int = [], trajectory = replicate 4 [] \<rparr>
   = Inr \<lparr> bs_G = [[1], [0], []], current_trajectory_bin = 0, old_bin_number = 0,
       current_group_integer = 0, bs_hash_to_int = [(3, 0)],
       trajectory = [[0], [], [], []] \<rparr>"
    unfolding binned_step_def replicate_small
    by (simp add: Let_def n1[unfolded One_nat_def replicate_small] c4[unfolded One_nat_def]
        h3[unfolded One_nat_def] insert_into_bin_def set_insert_def)
  have s2: "binned_step binary_hash 3 0 0 4 1 4 (5 / 2) (\<lambda>g. graph_from_edgelist g [(0, 1), (1, 2)])
     \<lparr> bs_G = [[1], [0], []], current_trajectory_bin = 0, old_bin_number = 0,
       current_group_integer = 0, bs_hash_to_int = [(3, 0)],
       trajectory = [[0], [], [], []] \<rparr>
   = Inr \<lparr> bs_G = [[1], [0, 2], [1]], current_trajectory_bin = 2, old_bin_number = 2,
           current_group_integer = 1, bs_hash_to_int = [(3, 0), (7, 1)],
           trajectory = [[0], [], [1], []] \<rparr>"
    unfolding binned_step_def growing_bin_number
    by (simp add: Let_def advance_bins_no_insert n2[unfolded One_nat_def] c5[unfolded One_nat_def]
        h4[unfolded One_nat_def] insert_into_bin_def set_insert_def)
  show ?thesis
    unfolding binned_social_trajectory_from_edge_lists_def growing_snapshots_def
    by (simp add: Let_def b s1[unfolded One_nat_def] s2[unfolded One_nat_def])
qed

lemma idle_binned:
  "bin_configuration (- 1) 0 0 2 = Inr (- 1, 0)
   \<and> binned_social_trajectory_from_edge_changes hc idle_stream 0 (- 1) 0 = Inr []
   \<and> binned_social_trajectory_from_edge_lists hc idle_snapshots 0 (- 1) 0 = Inr []"
proof -
  have b: "bin_configuration (- 1) 0 0 2 = Inr (- 1, 0)" by (simp add: bin_configuration_def)
  have g: "graph_from_edgelist [[], []] [] = Inr [[], []]"
    "graph_from_edgelist (replicate 2 []) [] = Inr [[], []]"
    by (simp_all add: graph_from_edgelist_def edges_in_range_def replicate_small)
  have 1: "binned_social_trajectory_from_edge_changes hc idle_stream 0 (- 1) 0 = Inr []"
    unfolding binned_social_trajectory_from_edge_changes_def idle_stream_def replicate_small
    by (simp add: Let_def b g binned_step_def apply_edge_changes_def edges_in_range_def)
  have 2: "binned_social_trajectory_from_edge_lists hc idle_snapshots 0 (- 1) 0 = Inr []"
    unfolding binned_social_trajectory_from_edge_lists_def idle_snapshots_def replicate_small
    by (simp add: Let_def b g binned_step_def)
  show ?thesis using b 1 2 by blast
qed

lemma bin_configuration_rejects:
  assumes "(0 < dt \<and> 0 < N_time_steps) \<or> (dt = 0 \<and> N_time_steps = 0)
           \<or> (0 < dt \<and> N_time_steps = 0 \<and> (tmax - t0) / dt \<notin> \<int>)"
  shows "bin_configuration dt N_time_steps t0 tmax = Inl Domain_error"
  using assms by (auto simp: bin_configuration_def Let_def frac_eq_0_iff)

lemma bin_configuration_accepts:
  assumes "0 < dt" "N_time_steps = 0" "(tmax - t0) / dt \<in> \<int>" "t0 \<le> tmax"
  shows "bin_configuration dt N_time_steps t0 tmax = Inr (dt, nat \<lfloor>(tmax - t0) / dt\<rfloor>)"
proof -
  have "\<not> (tmax - t0) / dt < 0" using assms(1,4) by (simp add: divide_less_0_iff)
  moreover have "frac ((tmax - t0) / dt) = 0" using assms(3) by (simp add: frac_eq_0_iff)
  ultimately show ?thesis unfolding bin_configuration_def Let_def using assms(1,2) by simp
qed



lemma spanned_bin_condition_false:
  assumes "t0 < tmax" "0 < N_time_steps" "t0 \<le> this_time"
  shows "\<not> (t0 + real (nat \<lfloor>(this_time - t0) / (tmax - t0) * real N_time_steps\<rfloor>)
              * ((tmax - t0) / real N_time_steps) > this_time)"
proof -
  define x where "x = (this_time - t0) / (tmax - t0) * real N_time_steps"
  have x0: "0 \<le> x" using assms by (simp add: x_def)
  have "real (nat \<lfloor>x\<rfloor>) \<le> x" using x0 by (simp add: of_nat_nat)
  moreover have d: "0 < (tmax - t0) / real N_time_steps" using assms by simp
  ultimately have "real (nat \<lfloor>x\<rfloor>) * ((tmax - t0) / real N_time_steps)
      \<le> x * ((tmax - t0) / real N_time_steps)"
    by (intro mult_right_mono) simp_all
  also have "\<dots> = this_time - t0" using assms by (simp add: x_def)
  finally show ?thesis unfolding x_def by simp
qed

text \<open>
  Claim C3, at a network that never changes.  Two nodes joined by an edge and no event:
  the component of node 0 has two members from \<open>t0 = 0\<close> to \<open>tmax = 1\<close>, and the claim
  asks for the one interval \<open>(0, 1)\<close>.  The function reads \<open>time.back()\<close> of the empty
  vector; and the loop, which alone records intervals, has nothing to run on and leaves
  the trajectory empty.
\<close>

theorem static_network_no_interval:
  "length (get_component_of_node 0 [[1], [0]]) = 2
   \<and> social_trajectory_from_edge_changes binary_hash static_stream 0 = Inl Out_of_bounds
   \<and> trajectory_loop binary_hash 2 0 0 1 [] [] []
        \<lparr> ts_G = [[1], [0]], last_time_active = 0, old_component = [0, 1],
          ts_hash_to_int = [], social_trajectory = [] \<rparr>
       = Inr \<lparr> ts_G = [[1], [0]], last_time_active = 0, old_component = [0, 1],
               ts_hash_to_int = [], social_trajectory = [] \<rparr>"
  by (simp add: c3[unfolded One_nat_def] static_stream_no_interval)

text \<open>
  Claim C6, at three nodes with the edge \<open>(0,1)\<close>, the edge \<open>(1,2)\<close> added at time \<open>5/2\<close>
  and four bins of width 1 on \<open>[0, 4]\<close>.  Node 0 is in the component \<open>{0,1}\<close> (label 0)
  up to \<open>5/2\<close> and in \<open>{0,1,2}\<close> (label 1) from then on, so the claim asks for the bins
  \<open>{0}, {0}, {0,1}, {1}\<close>.  Both binned functions return \<open>{0}, {}, {1}, {}\<close>: a label is
  entered only in the bin of the event that produced it.
\<close>

theorem binned_bins_between_events_empty:
  "binned_social_trajectory_from_edge_changes binary_hash growing_stream 0 0 4
     = Inr [[0], [], [1], []]
   \<and> binned_social_trajectory_from_edge_lists binary_hash growing_snapshots 0 0 4
     = Inr [[0], [], [1], []]"
  using growing_binned growing_snapshots_binned by simp

lemma configuration_error_wins:
  assumes "bin_configuration dt N_time_steps t0 tmax = Inl e"
  shows "edges_in_range (ec_N ec) (ec_edges_initial ec) \<Longrightarrow> ec_t0 ec = t0 \<Longrightarrow> ec_tmax ec = tmax
           \<Longrightarrow> binned_social_trajectory_from_edge_changes hc ec node dt N_time_steps = Inl e"
    and "el_t el = t0 # ts \<Longrightarrow> el_tmax el = tmax \<Longrightarrow> \<not> tmax < last (t0 # ts)
           \<Longrightarrow> binned_social_trajectory_from_edge_lists hc el node dt N_time_steps = Inl e"
proof -
  show "edges_in_range (ec_N ec) (ec_edges_initial ec) \<Longrightarrow> ec_t0 ec = t0 \<Longrightarrow> ec_tmax ec = tmax
           \<Longrightarrow> binned_social_trajectory_from_edge_changes hc ec node dt N_time_steps = Inl e"
    using assms
    by (simp add: binned_social_trajectory_from_edge_changes_def Let_def graph_from_edgelist_def)
  show "el_t el = t0 # ts \<Longrightarrow> el_tmax el = tmax \<Longrightarrow> \<not> tmax < last (t0 # ts)
           \<Longrightarrow> binned_social_trajectory_from_edge_lists hc el node dt N_time_steps = Inl e"
    using assms
    by (simp add: binned_social_trajectory_from_edge_lists_def Let_def)
qed

text \<open>
  Claim C7, at \<open>dt = -1\<close> and \<open>N_time_steps = 0\<close>: neither is positive, and the claim asks
  for a configuration error.  The check lets the pair pass, and for a node without edges
  both binned functions return an empty trajectory.
\<close>

theorem negative_dt_accepted:
  "bin_configuration (- 1) 0 0 2 = Inr (- 1, 0)
   \<and> binned_social_trajectory_from_edge_changes binary_hash idle_stream 0 (- 1) 0 = Inr []
   \<and> binned_social_trajectory_from_edge_lists binary_hash idle_snapshots 0 (- 1) 0 = Inr []"
  using idle_binned[of binary_hash] by simp

end
